theory Spec2Isabelle
  imports Complex_Main
begin

section \<open>JavaScript values\<close>

text \<open>
  A matrix cell is a JavaScript number. The finite numbers are idealised as the reals
  (exact arithmetic); \<open>NaN\<close> is the result of arithmetic on something that is not a
  number, and \<open>Undefined\<close> is what reading an array beyond its length gives.
\<close>

datatype jsnum = Num real | NaN | Undefined

datatype error = Error string | TypeError

fun js_add :: "jsnum \<Rightarrow> jsnum \<Rightarrow> jsnum" where
  "js_add (Num x) (Num y) = Num (x + y)"
| "js_add _ _ = NaN"

fun js_sub :: "jsnum \<Rightarrow> jsnum \<Rightarrow> jsnum" where
  "js_sub (Num x) (Num y) = Num (x - y)"
| "js_sub _ _ = NaN"

fun js_mul :: "jsnum \<Rightarrow> jsnum \<Rightarrow> jsnum" where
  "js_mul (Num x) (Num y) = Num (x * y)"
| "js_mul _ _ = NaN"

text \<open>
  Division by the number zero gives an infinity (or \<open>NaN\<close>) in JavaScript. The model has
  no infinities and answers \<open>NaN\<close>; every division of the modelled code has a divisor
  that passed a test excluding zero (\<open>Math.abs(p) < tol\<close> in \<open>lu\<close>, \<open>=== 0\<close> in \<open>rref\<close>).
\<close>

fun js_div :: "jsnum \<Rightarrow> jsnum \<Rightarrow> jsnum" where
  "js_div (Num x) (Num y) = (if y = 0 then NaN else Num (x / y))"
| "js_div _ _ = NaN"

text \<open>\<open>Math.abs(v) < t\<close>: a comparison with \<open>NaN\<close> is false.\<close>

fun js_abs_lt :: "jsnum \<Rightarrow> real \<Rightarrow> bool" where
  "js_abs_lt (Num x) t = (\<bar>x\<bar> < t)"
| "js_abs_lt _ t = False"

text \<open>\<open>v === 0\<close>.\<close>

fun js_is_zero :: "jsnum \<Rightarrow> bool" where
  "js_is_zero (Num x) = (x = 0)"
| "js_is_zero _ = False"

text \<open>\<open>a[j]\<close> on an array: \<open>undefined\<close> beyond the length.\<close>

definition get_at :: "jsnum list \<Rightarrow> nat \<Rightarrow> jsnum" where
  "get_at a j = (if j < length a then a ! j else Undefined)"

text \<open>\<open>a[j] = v\<close> on an array: a write beyond the length extends the array with holes.\<close>

definition put_at :: "jsnum list \<Rightarrow> nat \<Rightarrow> jsnum \<Rightarrow> jsnum list" where
  "put_at a j v = (if j < length a then a[j := v]
                   else a @ replicate (j - length a) Undefined @ [v])"

section \<open>The combinators of fun.js\<close>

text \<open>
  \<open>array/map.js\<close>: \<open>while (++i < l) r[i] = cb(a[i], i, a)\<close>; the callback receives the
  element and its index.
\<close>

fun array_map_from :: "nat \<Rightarrow> ('a \<Rightarrow> nat \<Rightarrow> 'b) \<Rightarrow> 'a list \<Rightarrow> 'b list" where
  "array_map_from i cb [] = []"
| "array_map_from i cb (x # xs) = cb x i # array_map_from (Suc i) cb xs"

definition array_map :: "('a \<Rightarrow> nat \<Rightarrow> 'b) \<Rightarrow> 'a list \<Rightarrow> 'b list" where
  "array_map cb a = array_map_from 0 cb a"

text \<open>\<open>array/fold.js\<close>: \<open>while (++i < l) r = cb(r, a[i], i, a)\<close>, starting from \<open>init\<close>.\<close>

fun array_fold_from :: "nat \<Rightarrow> ('b \<Rightarrow> 'a \<Rightarrow> nat \<Rightarrow> 'b) \<Rightarrow> 'b \<Rightarrow> 'a list \<Rightarrow> 'b" where
  "array_fold_from i cb r [] = r"
| "array_fold_from i cb r (x # xs) = array_fold_from (Suc i) cb (cb r x i) xs"

definition array_fold :: "('b \<Rightarrow> 'a \<Rightarrow> nat \<Rightarrow> 'b) \<Rightarrow> 'b \<Rightarrow> 'a list \<Rightarrow> 'b" where
  "array_fold cb init a = array_fold_from 0 cb init a"





section \<open>Operations on the contents of a matrix\<close>

text \<open>
  The array of rows a Matrix wraps (\<open>__value\<close>). The operations of this section are
  built from \<open>map\<close> and \<open>fold\<close> only: they read their arguments and build new arrays,
  so they are functions of the contents.
\<close>

type_synonym rows = "jsnum list list"

text \<open>
  \<open>util/transpose.js\<close>: \<open>map((item, i) => (prev[i] || []).concat(next[i]))(next)\<close>.
\<close>

definition transpose_util :: "rows \<Rightarrow> jsnum list \<Rightarrow> rows" where
  "transpose_util prev next =
     array_map (\<lambda>item i. (if i < length prev then prev ! i else []) @ [item]) next"

text \<open>\<open>Matrix.prototype.transpose\<close>: \<open>Matrix.of(fold(transpose, [], this.__value))\<close>.\<close>

definition Matrix_transpose :: "rows \<Rightarrow> rows" where
  "Matrix_transpose this = array_fold (\<lambda>prev next i. transpose_util prev next) [] this"

text \<open>\<open>getRows\<close>: \<open>this.__value.length\<close>.\<close>

definition getRows :: "rows \<Rightarrow> nat" where
  "getRows this = length this"

text \<open>
  \<open>getCols\<close>: \<open>this.__value[0].length\<close>. Without a first row, \<open>this.__value[0]\<close> is
  \<open>undefined\<close> and reading its length throws a TypeError.
\<close>

definition getCols :: "rows \<Rightarrow> error + nat" where
  "getCols this = (case this of [] \<Rightarrow> Inl TypeError | r # _ \<Rightarrow> Inr (length r))"

text \<open>
  The argument of \<open>add\<close>, \<open>subtract\<close> and \<open>multiply\<close>: a Matrix (\<open>M instanceof Matrix\<close>)
  or anything else, which is used as a scalar; the scalars of the model are numbers.
\<close>

datatype operand = Scalar jsnum | Mat rows

text \<open>
  The three operations share one shape: the test
  \<open>this.getCols() !== M.getCols() || this.getRows() !== M.getRows()\<close> and its error, then
  \<open>this.map((row, idx) => map((val, jdx) => val op M.__value[idx][jdx])(row))\<close>, or for a
  scalar \<open>this.map(map(x => x op M))\<close>. In the elementwise branch \<open>idx\<close> is below the
  number of rows of \<open>this\<close>, which the test has found equal to that of \<open>M\<close>.
\<close>

definition elementwise :: "(jsnum \<Rightarrow> jsnum \<Rightarrow> jsnum) \<Rightarrow> string \<Rightarrow> rows \<Rightarrow> operand \<Rightarrow> error + rows" where
  "elementwise op msg this M =
     (case M of
        Mat m \<Rightarrow>
          (case getCols this of
             Inl e \<Rightarrow> Inl e
           | Inr tc \<Rightarrow>
               (case getCols m of
                  Inl e \<Rightarrow> Inl e
                | Inr mc \<Rightarrow>
                    if tc \<noteq> mc \<or> getRows this \<noteq> getRows m then Inl (Error msg)
                    else Inr (array_map (\<lambda>row i.
                           array_map (\<lambda>val j. op val (get_at (m ! i) j)) row) this)))
      | Scalar x \<Rightarrow> Inr (array_map (\<lambda>row i. array_map (\<lambda>val j. op val x) row) this))"

definition Matrix_add :: "rows \<Rightarrow> operand \<Rightarrow> error + rows" where
  "Matrix_add = elementwise js_add ''Matrices do not match, cannot add''"

definition Matrix_subtract :: "rows \<Rightarrow> operand \<Rightarrow> error + rows" where
  "Matrix_subtract = elementwise js_sub ''Matrices do not match, cannot subtract''"

definition Matrix_multiply :: "rows \<Rightarrow> operand \<Rightarrow> error + rows" where
  "Matrix_multiply =
     elementwise js_mul ''Matrices do not match, cannot create hadamard product''"




section \<open>Objects and aliasing\<close>

text \<open>
  \<open>lu\<close> and \<open>rref\<close> assign to the cells and rows of arrays, so the arrays and the Matrix
  instances live in a store. A row is an array of numbers, the value of a Matrix is an
  array of references to rows, and a Matrix instance has the fields \<open>__value\<close> and
  \<open>precision\<close> (4 from the prototype until \<open>setPrecision\<close> assigns it). Each kind of
  object has its own addresses; an allocation takes the next free address.
\<close>

record matrix_obj =
  mvalue :: nat
  precision :: nat

record heap =
  row_at :: "nat \<Rightarrow> jsnum list"
  outer_at :: "nat \<Rightarrow> nat list"
  obj_at :: "nat \<Rightarrow> matrix_obj"
  next_row :: nat
  next_outer :: nat
  next_obj :: nat

definition empty_heap :: heap where
  "empty_heap = \<lparr>row_at = (\<lambda>a. []), outer_at = (\<lambda>a. []),
                  obj_at = (\<lambda>a. \<lparr>mvalue = 0, precision = 4\<rparr>),
                  next_row = 0, next_outer = 0, next_obj = 0\<rparr>"

text \<open>New arrays for the given rows, at consecutive addresses.\<close>

definition new_rows :: "heap \<Rightarrow> rows \<Rightarrow> heap \<times> nat list" where
  "new_rows h rs =
     (h\<lparr>row_at := (\<lambda>a. if next_row h \<le> a \<and> a < next_row h + length rs
                          then rs ! (a - next_row h) else row_at h a),
        next_row := next_row h + length rs\<rparr>,
      [next_row h..<next_row h + length rs])"

definition new_outer :: "heap \<Rightarrow> nat list \<Rightarrow> heap \<times> nat" where
  "new_outer h refs =
     (h\<lparr>outer_at := (outer_at h)(next_outer h := refs), next_outer := Suc (next_outer h)\<rparr>,
      next_outer h)"

text \<open>
  A new array of new rows: what an array literal, or \<open>map\<close> with a callback that builds
  each row, creates.
\<close>

definition new_array :: "heap \<Rightarrow> rows \<Rightarrow> heap \<times> nat" where
  "new_array h rs = (let (h1, refs) = new_rows h rs in new_outer h1 refs)"

text \<open>\<open>new Matrix(val)\<close>: \<open>this.__value = val\<close>; the precision is the prototype's.\<close>

definition new_Matrix :: "heap \<Rightarrow> nat \<Rightarrow> heap \<times> nat" where
  "new_Matrix h a =
     (h\<lparr>obj_at := (obj_at h)(next_obj h := \<lparr>mvalue = a, precision = 4\<rparr>),
        next_obj := Suc (next_obj h)\<rparr>,
      next_obj h)"

text \<open>The argument of \<open>Matrix.of\<close>: an array of rows, or a Matrix instance.\<close>

datatype js_value = Array nat | Instance nat

text \<open>
  \<open>Matrix.of\<close>. \<open>this\<close> is \<open>Some t\<close> when the function is called with a Matrix instance
  \<open>t\<close> as its receiver, and \<open>None\<close> in the call \<open>Matrix.of(val)\<close>.
\<close>

definition Matrix_of :: "heap \<Rightarrow> nat option \<Rightarrow> js_value \<Rightarrow> heap \<times> nat" where
  "Matrix_of h this val =
     (case val of
        Instance m \<Rightarrow> (h, m)
      | Array a \<Rightarrow>
          (case this of
             Some t \<Rightarrow> (h\<lparr>obj_at := (obj_at h)(t := (obj_at h t)\<lparr>mvalue := a\<rparr>)\<rparr>, t)
           | None \<Rightarrow> new_Matrix h a))"

text \<open>The rows of an array of rows, and \<open>this.__value\<close> read through to the numbers.\<close>

definition rows_at :: "heap \<Rightarrow> nat \<Rightarrow> rows" where
  "rows_at h a = map (row_at h) (outer_at h a)"

definition contents :: "heap \<Rightarrow> nat \<Rightarrow> rows" where
  "contents h m = rows_at h (mvalue (obj_at h m))"

text \<open>\<open>Matrix.prototype.map\<close>: \<open>Matrix.of(map(f)(this.__value))\<close>, for a callback that
  builds a new row from a row and its index.\<close>

definition Matrix_map :: "heap \<Rightarrow> nat \<Rightarrow> (jsnum list \<Rightarrow> nat \<Rightarrow> jsnum list) \<Rightarrow> heap \<times> nat" where
  "Matrix_map h this f =
     (let (h1, a) = new_array h (array_map f (contents h this))
      in Matrix_of h1 None (Array a))"

text \<open>\<open>fill\<close>: \<open>this.map(map(x => f(x)))\<close>; \<open>zeros\<close>: \<open>this.fill(x => 0)\<close>.\<close>

definition Matrix_fill :: "heap \<Rightarrow> nat \<Rightarrow> (jsnum \<Rightarrow> jsnum) \<Rightarrow> heap \<times> nat" where
  "Matrix_fill h this f = Matrix_map h this (\<lambda>row i. array_map (\<lambda>x j. f x) row)"

definition Matrix_zeros :: "heap \<Rightarrow> nat \<Rightarrow> heap \<times> nat" where
  "Matrix_zeros h this = Matrix_fill h this (\<lambda>x. Num 0)"

text \<open>\<open>Matrix.fromArray\<close>: \<open>Matrix.of(map(row => map(col => col)(row))(arr))\<close>.\<close>

definition Matrix_fromArray :: "heap \<Rightarrow> nat \<Rightarrow> heap \<times> nat" where
  "Matrix_fromArray h arr =
     (let (h1, a) = new_array h (array_map (\<lambda>row i. array_map (\<lambda>col j. col) row) (rows_at h arr))
      in Matrix_of h1 None (Array a))"

definition setPrecision :: "heap \<Rightarrow> nat \<Rightarrow> nat \<Rightarrow> heap" where
  "setPrecision h this p = h\<lparr>obj_at := (obj_at h)(this := (obj_at h this)\<lparr>precision := p\<rparr>)\<rparr>"

text \<open>\<open>clone\<close>: \<open>M = Matrix.fromArray(this.__value); M.setPrecision(this.precision)\<close>.\<close>

definition Matrix_clone :: "heap \<Rightarrow> nat \<Rightarrow> heap \<times> nat" where
  "Matrix_clone h this =
     (let (h1, M) = Matrix_fromArray h (mvalue (obj_at h this))
      in (setPrecision h1 M (precision (obj_at h1 this)), M))"

text \<open>
  \<open>M.__value[i]\<close>: the reference to row \<open>i\<close>, or \<open>undefined\<close> (\<open>None\<close>) beyond the
  last row. Indexing \<open>undefined\<close> throws a TypeError.
\<close>

definition rowref :: "heap \<Rightarrow> nat \<Rightarrow> nat \<Rightarrow> nat option" where
  "rowref h m i =
     (let refs = outer_at h (mvalue (obj_at h m))
      in if i < length refs then Some (refs ! i) else None)"

text \<open>\<open>M.__value[i][j]\<close>, read and assigned.\<close>

definition cell_get :: "heap \<Rightarrow> nat \<Rightarrow> nat \<Rightarrow> nat \<Rightarrow> error + jsnum" where
  "cell_get h m i j =
     (case rowref h m i of None \<Rightarrow> Inl TypeError | Some r \<Rightarrow> Inr (get_at (row_at h r) j))"

definition cell_set :: "heap \<Rightarrow> nat \<Rightarrow> nat \<Rightarrow> nat \<Rightarrow> jsnum \<Rightarrow> error + heap" where
  "cell_set h m i j v =
     (case rowref h m i of
        None \<Rightarrow> Inl TypeError
      | Some r \<Rightarrow> Inr (h\<lparr>row_at := (row_at h)(r := put_at (row_at h r) j v)\<rparr>))"

section \<open>LU decomposition\<close>

definition tol :: real where
  "tol = 1 / 10 ^ 6"

text \<open>
  The loops of \<open>lu\<close>, innermost first. Each returns the store it leaves and the
  exception that ended it, if any.

  \<open>for (j = k + 1; j < n; ++j) A[i][j] = A[i][j] - L[i][k] * A[k][j]\<close>
\<close>

function lu_j :: "heap \<Rightarrow> nat \<Rightarrow> nat \<Rightarrow> nat \<Rightarrow> nat \<Rightarrow> nat \<Rightarrow> nat \<Rightarrow> error option \<times> heap" where
  "lu_j h A L k i n j =
     (if j < n then
        (case (cell_get h A i j, cell_get h L i k, cell_get h A k j) of
           (Inr aij, Inr lik, Inr akj) \<Rightarrow>
             (case cell_set h A i j (js_sub aij (js_mul lik akj)) of
                Inl e \<Rightarrow> (Some e, h)
              | Inr h' \<Rightarrow> lu_j h' A L k i n (Suc j))
         | _ \<Rightarrow> (Some TypeError, h))
      else (None, h))"
  by pat_completeness auto
termination
  by (relation "measure (\<lambda>(h, A, L, k, i, n, j). n - j)") auto

declare lu_j.simps [simp del]

text \<open>
  \<open>for (i = k + 1; i < n; ++i) { L[i][k] = A[i][k] / A[k][k]; (the loop on j) }\<close>
\<close>

function lu_i :: "heap \<Rightarrow> nat \<Rightarrow> nat \<Rightarrow> nat \<Rightarrow> nat \<Rightarrow> nat \<Rightarrow> error option \<times> heap" where
  "lu_i h A L k n i =
     (if i < n then
        (case (cell_get h A i k, cell_get h A k k) of
           (Inr aik, Inr akk) \<Rightarrow>
             (case cell_set h L i k (js_div aik akk) of
                Inl e \<Rightarrow> (Some e, h)
              | Inr h1 \<Rightarrow>
                  (case lu_j h1 A L k i n (Suc k) of
                     (Some e, h2) \<Rightarrow> (Some e, h2)
                   | (None, h2) \<Rightarrow> lu_i h2 A L k n (Suc i)))
         | _ \<Rightarrow> (Some TypeError, h))
      else (None, h))"
  by pat_completeness auto
termination
  by (relation "measure (\<lambda>(h, A, L, k, n, i). n - i)") auto

declare lu_i.simps [simp del]

text \<open>\<open>for (l = k; l < n; ++l) U[k][l] = A[k][l]\<close>\<close>

function lu_l :: "heap \<Rightarrow> nat \<Rightarrow> nat \<Rightarrow> nat \<Rightarrow> nat \<Rightarrow> nat \<Rightarrow> error option \<times> heap" where
  "lu_l h A U k n l =
     (if l < n then
        (case cell_get h A k l of
           Inl e \<Rightarrow> (Some e, h)
         | Inr akl \<Rightarrow>
             (case cell_set h U k l akl of
                Inl e \<Rightarrow> (Some e, h)
              | Inr h' \<Rightarrow> lu_l h' A U k n (Suc l)))
      else (None, h))"
  by pat_completeness auto
termination
  by (relation "measure (\<lambda>(h, A, U, k, n, l). n - l)") auto

declare lu_l.simps [simp del]

text \<open>
  \<open>for (k = 0; k < n; ++k) { if (Math.abs(A[k][k]) < tol) throw Error(...); L[k][k] = 1;
  (the loop on i); (the loop on l) }\<close>
\<close>

function lu_k :: "heap \<Rightarrow> nat \<Rightarrow> nat \<Rightarrow> nat \<Rightarrow> nat \<Rightarrow> nat \<Rightarrow> error option \<times> heap" where
  "lu_k h A L U n k =
     (if k < n then
        (case cell_get h A k k of
           Inl e \<Rightarrow> (Some e, h)
         | Inr akk \<Rightarrow>
             if js_abs_lt akk tol
             then (Some (Error ''Cannot proceed without a row exchange''), h)
             else
               (case cell_set h L k k (Num 1) of
                  Inl e \<Rightarrow> (Some e, h)
                | Inr h1 \<Rightarrow>
                    (case lu_i h1 A L k n (Suc k) of
                       (Some e, h2) \<Rightarrow> (Some e, h2)
                     | (None, h2) \<Rightarrow>
                         (case lu_l h2 A U k n k of
                            (Some e, h3) \<Rightarrow> (Some e, h3)
                          | (None, h3) \<Rightarrow> lu_k h3 A L U n (Suc k)))))
      else (None, h))"
  by pat_completeness auto
termination
  by (relation "measure (\<lambda>(h, A, L, U, n, k). n - k)") auto

declare lu_k.simps [simp del]

text \<open>
  \<open>Matrix.prototype.lu\<close>: \<open>n = this.getRows(); A = this.clone(); L = this.zeros();
  U = this.zeros()\<close>, the loop on \<open>k\<close>, and \<open>return [L, U]\<close>.
\<close>

definition Matrix_lu :: "heap \<Rightarrow> nat \<Rightarrow> (error + nat \<times> nat) \<times> heap" where
  "Matrix_lu h this =
     (let n = getRows (contents h this);
          (h1, A) = Matrix_clone h this;
          (h2, L) = Matrix_zeros h1 this;
          (h3, U) = Matrix_zeros h2 this
      in case lu_k h3 A L U n 0 of
           (Some e, h4) \<Rightarrow> (Inl e, h4)
         | (None, h4) \<Rightarrow> (Inr (L, U), h4))"

section \<open>Row-reduced echelon form\<close>

text \<open>
  The loops of \<open>rref\<close> test \<open>this.getRows()\<close> and \<open>this.getCols()\<close> again at every
  turn, so the model reads them from the store at every turn. The lemmas between the
  definitions are what the termination proofs need: the writes of a loop leave the
  number of rows and the length of the first row of a matrix as they are.

  The longest row of a matrix bounds the columns in which a zero can be read.
\<close>

definition width :: "heap \<Rightarrow> nat \<Rightarrow> nat" where
  "width h m = Max (insert 0 (length ` set (contents h m)))"

lemma rowref_Some_lt: "rowref h m i = Some r \<Longrightarrow> i < length (outer_at h (mvalue (obj_at h m)))"
  by (auto simp: rowref_def Let_def split: if_splits)

lemma zero_cell_in_range:
  assumes "cell_get h m i j = Inr v" and "js_is_zero v"
  shows "j < width h m" and "i < length (outer_at h (mvalue (obj_at h m)))"
proof -
  obtain r where r: "rowref h m i = Some r" and v: "v = get_at (row_at h r) j"
    using assms(1) by (auto simp: cell_get_def split: option.splits)
  show i: "i < length (outer_at h (mvalue (obj_at h m)))" by (rule rowref_Some_lt [OF r])
  have "r = outer_at h (mvalue (obj_at h m)) ! i"
    using r by (auto simp: rowref_def Let_def split: if_splits)
  then have "row_at h r \<in> set (contents h m)"
    using i by (auto simp: contents_def rows_at_def)
  then have "length (row_at h r) \<le> width h m"
    unfolding width_def by (intro Max_ge) auto
  moreover have "j < length (row_at h r)"
    using assms(2) v by (cases "j < length (row_at h r)") (auto simp: get_at_def)
  ultimately show "j < width h m" by simp
qed

text \<open>
  \<open>let i = r; while (resultMatrix[i][lead] === 0) { ++i; if (this.getRows() === i) { i = r;
  ++lead; if (this.getCols() === lead) return resultMatrix } }\<close>.
  The result is \<open>None\<close> for the early return, and the row \<open>i\<close> and column \<open>lead\<close> the
  loop ends with otherwise.
\<close>

function rref_while :: "heap \<Rightarrow> nat \<Rightarrow> nat \<Rightarrow> nat \<Rightarrow> nat \<Rightarrow> nat \<Rightarrow> error + (nat \<times> nat) option" where
  "rref_while h this res r lead i =
     (case cell_get h res i lead of
        Inl e \<Rightarrow> Inl e
      | Inr v \<Rightarrow>
          if js_is_zero v then
            (if getRows (contents h this) = Suc i then
               (case getCols (contents h this) of
                  Inl e \<Rightarrow> Inl e
                | Inr cols \<Rightarrow>
                    if cols = Suc lead then Inr None
                    else rref_while h this res r (Suc lead) r)
             else rref_while h this res r lead (Suc i))
          else Inr (Some (i, lead)))"
  by pat_completeness auto
termination
proof (relation "measures [\<lambda>(h, this, res, r, lead, i). width h res - lead,
                           \<lambda>(h, this, res, r, lead, i). length (outer_at h (mvalue (obj_at h res))) - i]")
  show "wf (measures [\<lambda>(h, this, res, r, lead, i). width h res - lead,
                           \<lambda>(h, this, res, r, lead, i). length (outer_at h (mvalue (obj_at h res))) - i])"
    by simp
next
  fix h :: heap and this res r lead i :: nat and v
  assume "cell_get h res i lead = Inr v" "js_is_zero v"
  then have "lead < width h res" by (rule zero_cell_in_range)
  then show "((h, this, res, r, Suc lead, r), h, this, res, r, lead, i)
       \<in> measures [\<lambda>(h, this, res, r, lead, i). width h res - lead,
                           \<lambda>(h, this, res, r, lead, i). length (outer_at h (mvalue (obj_at h res))) - i]"
    by auto
next
  fix h :: heap and this res r lead i :: nat and v
  assume "cell_get h res i lead = Inr v" "js_is_zero v"
  then have "i < length (outer_at h (mvalue (obj_at h res)))" by (rule zero_cell_in_range)
  then show "((h, this, res, r, lead, Suc i), h, this, res, r, lead, i)
       \<in> measures [\<lambda>(h, this, res, r, lead, i). width h res - lead,
                           \<lambda>(h, this, res, r, lead, i). length (outer_at h (mvalue (obj_at h res))) - i]"
    by auto
qed

declare rref_while.simps [simp del]

text \<open>The Matrix instances and the lengths of the arrays of rows are the same.\<close>

definition same_frame :: "heap \<Rightarrow> heap \<Rightarrow> bool" where
  "same_frame h h' \<longleftrightarrow>
     obj_at h' = obj_at h \<and> (\<forall>a. length (outer_at h' a) = length (outer_at h a))"

lemma same_frame_refl [simp]: "same_frame h h"
  by (simp add: same_frame_def)

lemma same_frame_trans: "same_frame h1 h2 \<Longrightarrow> same_frame h2 h3 \<Longrightarrow> same_frame h1 h3"
  by (simp add: same_frame_def)

lemma same_frame_getRows:
  "same_frame h h' \<Longrightarrow> getRows (contents h' this) = getRows (contents h this)"
  by (simp add: same_frame_def getRows_def contents_def rows_at_def)

lemma cell_set_same_frame: "cell_set h m i j v = Inr h' \<Longrightarrow> same_frame h h'"
  by (auto simp: cell_set_def same_frame_def split: option.splits)

lemma length_put_at: "j < length a \<Longrightarrow> length (put_at a j v) = length a"
  by (simp add: put_at_def)

lemma cell_set_getCols:
  assumes "cell_set h m i j v = Inr h'" and "getCols (contents h this) = Inr cols" and "j < cols"
  shows "getCols (contents h' this) = Inr cols"
proof -
  obtain r where h': "h' = h\<lparr>row_at := (row_at h)(r := put_at (row_at h r) j v)\<rparr>"
    using assms(1) by (auto simp: cell_set_def split: option.splits)
  obtain a as where o: "outer_at h (mvalue (obj_at h this)) = a # as"
    and len: "length (row_at h a) = cols"
    using assms(2) by (auto simp: getCols_def contents_def rows_at_def split: list.splits)
  have "length (row_at h' a) = cols"
    using len assms(3) by (auto simp: h' length_put_at)
  then show ?thesis
    using o by (simp add: getCols_def contents_def rows_at_def h')
qed

text \<open>
  \<open>let val = resultMatrix[r][lead]; for (j = 0; j < this.getCols(); ++j)
  resultMatrix[r][j] /= val\<close>
\<close>

function rref_norm :: "heap \<Rightarrow> nat \<Rightarrow> nat \<Rightarrow> nat \<Rightarrow> jsnum \<Rightarrow> nat \<Rightarrow> error option \<times> heap" where
  "rref_norm h this res r val j =
     (case getCols (contents h this) of
        Inl e \<Rightarrow> (Some e, h)
      | Inr cols \<Rightarrow>
          if j < cols then
            (case cell_get h res r j of
               Inl e \<Rightarrow> (Some e, h)
             | Inr x \<Rightarrow>
                 (case cell_set h res r j (js_div x val) of
                    Inl e \<Rightarrow> (Some e, h)
                  | Inr h' \<Rightarrow> rref_norm h' this res r val (Suc j)))
          else (None, h))"
  by pat_completeness auto
termination
proof (relation "measure (\<lambda>(h, this, res, r, val, j).
                    (case getCols (contents h this) of Inl e \<Rightarrow> 0 | Inr cols \<Rightarrow> cols - j))")
  show "wf (measure (\<lambda>(h, this, res, r, val, j).
                    (case getCols (contents h this) of Inl e \<Rightarrow> 0 | Inr cols \<Rightarrow> cols - j)))"
    by simp
next
  fix h h' :: heap and this res r j cols :: nat and val x
  assume "getCols (contents h this) = Inr cols" "j < cols"
    "cell_set h res r j (js_div x val) = Inr h'"
  then show "((h', this, res, r, val, Suc j), h, this, res, r, val, j)
       \<in> measure (\<lambda>(h, this, res, r, val, j).
                    (case getCols (contents h this) of Inl e \<Rightarrow> 0 | Inr cols \<Rightarrow> cols - j))"
    using cell_set_getCols [of h res r j "js_div x val" h' this cols] by simp
qed

declare rref_norm.simps [simp del]

text \<open>
  \<open>for (j = 0; j < this.getCols(); ++j) resultMatrix[i][j] -= val * resultMatrix[r][j]\<close>
\<close>

function rref_elim_j :: "heap \<Rightarrow> nat \<Rightarrow> nat \<Rightarrow> nat \<Rightarrow> nat \<Rightarrow> jsnum \<Rightarrow> nat \<Rightarrow> error option \<times> heap" where
  "rref_elim_j h this res r i val j =
     (case getCols (contents h this) of
        Inl e \<Rightarrow> (Some e, h)
      | Inr cols \<Rightarrow>
          if j < cols then
            (case (cell_get h res i j, cell_get h res r j) of
               (Inr x, Inr y) \<Rightarrow>
                 (case cell_set h res i j (js_sub x (js_mul val y)) of
                    Inl e \<Rightarrow> (Some e, h)
                  | Inr h' \<Rightarrow> rref_elim_j h' this res r i val (Suc j))
             | _ \<Rightarrow> (Some TypeError, h))
          else (None, h))"
  by pat_completeness auto
termination
proof (relation "measure (\<lambda>(h, this, res, r, i, val, j).
                    (case getCols (contents h this) of Inl e \<Rightarrow> 0 | Inr cols \<Rightarrow> cols - j))")
  show "wf (measure (\<lambda>(h, this, res, r, i, val, j).
                    (case getCols (contents h this) of Inl e \<Rightarrow> 0 | Inr cols \<Rightarrow> cols - j)))"
    by simp
next
  fix h h' :: heap and this res r i j cols :: nat and val x y
  assume "getCols (contents h this) = Inr cols" "j < cols"
    "cell_set h res i j (js_sub x (js_mul val y)) = Inr h'"
  then show "((h', this, res, r, i, val, Suc j), h, this, res, r, i, val, j)
       \<in> measure (\<lambda>(h, this, res, r, i, val, j).
                    (case getCols (contents h this) of Inl e \<Rightarrow> 0 | Inr cols \<Rightarrow> cols - j))"
    using cell_set_getCols [of h res i j _ h' this cols] by simp
qed

declare rref_elim_j.simps [simp del]


lemma rref_norm_same_frame: "same_frame h (snd (rref_norm h this res r val j))"
proof (induction h this res r val j rule: rref_norm.induct)
  case (1 h this res r val j)
  show ?case
  proof (cases "\<exists>cols x h'. getCols (contents h this) = Inr cols \<and> j < cols \<and>
                  cell_get h res r j = Inr x \<and> cell_set h res r j (js_div x val) = Inr h'")
    case True
    then obtain cols x h' where c: "getCols (contents h this) = Inr cols" "j < cols"
      "cell_get h res r j = Inr x" and s: "cell_set h res r j (js_div x val) = Inr h'"
      by blast
    have "same_frame h' (snd (rref_norm h' this res r val (Suc j)))"
      by (rule "1.IH" [OF c s])
    then have "same_frame h (snd (rref_norm h' this res r val (Suc j)))"
      using cell_set_same_frame [OF s] same_frame_trans by blast
    moreover have "rref_norm h this res r val j = rref_norm h' this res r val (Suc j)"
      using c s by (subst rref_norm.simps) simp
    ultimately show ?thesis by simp
  next
    case False
    then have "snd (rref_norm h this res r val j) = h"
      by (subst rref_norm.simps) (auto split: sum.splits)
    then show ?thesis by simp
  qed
qed

lemma rref_elim_j_same_frame: "same_frame h (snd (rref_elim_j h this res r i val j))"
proof (induction h this res r i val j rule: rref_elim_j.induct)
  case (1 h this res r i val j)
  show ?case
  proof (cases "\<exists>cols x y h'. getCols (contents h this) = Inr cols \<and> j < cols \<and>
                  cell_get h res i j = Inr x \<and> cell_get h res r j = Inr y \<and>
                  cell_set h res i j (js_sub x (js_mul val y)) = Inr h'")
    case True
    then obtain cols x y h' where c: "getCols (contents h this) = Inr cols" "j < cols"
      and g: "cell_get h res i j = Inr x" "cell_get h res r j = Inr y"
      and s: "cell_set h res i j (js_sub x (js_mul val y)) = Inr h'"
      by blast
    have "same_frame h' (snd (rref_elim_j h' this res r i val (Suc j)))"
      by (rule "1.IH" [OF c _ _ _ s]) (simp_all add: g)
    then have "same_frame h (snd (rref_elim_j h' this res r i val (Suc j)))"
      using cell_set_same_frame [OF s] same_frame_trans by blast
    moreover have "rref_elim_j h this res r i val j = rref_elim_j h' this res r i val (Suc j)"
      using c g s by (subst rref_elim_j.simps) simp
    ultimately show ?thesis by simp
  next
    case False
    then have "snd (rref_elim_j h this res r i val j) = h"
      by (subst rref_elim_j.simps) (auto split: sum.splits)
    then show ?thesis by simp
  qed
qed

lemma rref_elim_j_getRows:
  "(e, h') = rref_elim_j h this res r i val j \<Longrightarrow>
   getRows (contents h' t) = getRows (contents h t)"
  using rref_elim_j_same_frame [of h this res r i val j] same_frame_getRows [of h h' t]
  by (metis snd_conv)

lemma rref_norm_getRows:
  "(e, h') = rref_norm h this res r val j \<Longrightarrow>
   getRows (contents h' t) = getRows (contents h t)"
  using rref_norm_same_frame [of h this res r val j] same_frame_getRows [of h h' t]
  by (metis snd_conv)

text \<open>
  \<open>for (i = 0; i < this.getRows(); ++i) { if (i === r) continue;
  val = resultMatrix[i][lead]; (the loop on j) }\<close>
\<close>

function rref_elim :: "heap \<Rightarrow> nat \<Rightarrow> nat \<Rightarrow> nat \<Rightarrow> nat \<Rightarrow> nat \<Rightarrow> error option \<times> heap" where
  "rref_elim h this res r lead i =
     (if i < getRows (contents h this) then
        (if i = r then rref_elim h this res r lead (Suc i)
         else
           (case cell_get h res i lead of
              Inl e \<Rightarrow> (Some e, h)
            | Inr val \<Rightarrow>
                (case rref_elim_j h this res r i val 0 of
                   (Some e, h') \<Rightarrow> (Some e, h')
                 | (None, h') \<Rightarrow> rref_elim h' this res r lead (Suc i))))
      else (None, h))"
  by pat_completeness auto
termination
proof (relation "measure (\<lambda>(h, this, res, r, lead, i). getRows (contents h this) - i)",
    goal_cases)
  case 1
  show ?case by simp
next
  case (2 h this res r lead i)
  then show ?case by simp
next
  case (3 h this res r lead i val x h')
  have "getRows (contents h' this) = getRows (contents h this)"
    using 3 rref_elim_j_getRows by blast
  then show ?case using 3 by simp
qed

declare rref_elim.simps [simp del]


lemma rref_elim_same_frame: "same_frame h (snd (rref_elim h this res r lead i))"
proof (induction h this res r lead i rule: rref_elim.induct)
  case (1 h this res r lead i)
  show ?case
  proof (cases "i < getRows (contents h this)")
    case False
    then have "snd (rref_elim h this res r lead i) = h"
      by (subst rref_elim.simps) simp
    then show ?thesis by simp
  next
    case i: True
    show ?thesis
    proof (cases "i = r")
      case True
      then have "rref_elim h this res r lead i = rref_elim h this res r lead (Suc i)"
        using i by (subst rref_elim.simps) simp
      then show ?thesis using "1.IH"(1) [OF i True] by simp
    next
      case ir: False
      show ?thesis
      proof (cases "cell_get h res i lead")
        case (Inl e)
        then have "snd (rref_elim h this res r lead i) = h"
          using i ir by (subst rref_elim.simps) simp
        then show ?thesis by simp
      next
        case (Inr val)
        obtain e h' where j: "rref_elim_j h this res r i val 0 = (e, h')"
          by (cases "rref_elim_j h this res r i val 0")
        have f1: "same_frame h h'"
          using rref_elim_j_same_frame [of h this res r i val 0] j by simp
        show ?thesis
        proof (cases e)
          case (Some err)
          then have "snd (rref_elim h this res r lead i) = h'"
            using i ir Inr j by (subst rref_elim.simps) simp
          then show ?thesis using f1 by simp
        next
          case None
          have "same_frame h' (snd (rref_elim h' this res r lead (Suc i)))"
            by (rule "1.IH"(2) [OF i ir Inr]) (use j None in simp_all)
          moreover have "rref_elim h this res r lead i = rref_elim h' this res r lead (Suc i)"
            using i ir Inr j None by (subst rref_elim.simps) simp
          ultimately show ?thesis using f1 same_frame_trans by fastforce
        qed
      qed
    qed
  qed
qed

lemma rref_elim_getRows:
  "(e, h') = rref_elim h this res r lead i \<Longrightarrow>
   getRows (contents h' t) = getRows (contents h t)"
  using rref_elim_same_frame [of h this res r lead i] same_frame_getRows [of h h' t]
  by (metis snd_conv)

text \<open>
  \<open>tmp = resultMatrix[i]; resultMatrix[i] = resultMatrix[r]; resultMatrix[r] = tmp\<close>:
  the two references change places in the array of rows. Both \<open>i\<close> and \<open>r\<close> index rows
  of the clone (the loop above has just read row \<open>i\<close>, and \<open>r\<close> is below
  \<open>this.getRows()\<close>); were one of them \<open>undefined\<close>, the next statement would index
  \<open>undefined\<close>, and the model stops there with that TypeError.
\<close>

definition rows_swap :: "heap \<Rightarrow> nat \<Rightarrow> nat \<Rightarrow> nat \<Rightarrow> error + heap" where
  "rows_swap h res i r =
     (case (rowref h res i, rowref h res r) of
        (Some ri, Some rr) \<Rightarrow>
          Inr (h\<lparr>outer_at := (outer_at h)
                 (mvalue (obj_at h res) := (outer_at h (mvalue (obj_at h res)))[i := rr, r := ri])\<rparr>)
      | _ \<Rightarrow> Inl TypeError)"

lemma rows_swap_same_frame: "rows_swap h res i r = Inr h' \<Longrightarrow> same_frame h h'"
  by (auto simp: rows_swap_def same_frame_def split: option.splits)

text \<open>
  \<open>for (r = 0; r < this.getRows(); ++r) { if (this.getCols() <= lead) return resultMatrix;
  (the while loop); (the exchange); (the division of row r); (the elimination); lead++ }
  return resultMatrix\<close>
\<close>

function rref_r :: "heap \<Rightarrow> nat \<Rightarrow> nat \<Rightarrow> nat \<Rightarrow> nat \<Rightarrow> (error + nat) \<times> heap" where
  "rref_r h this res lead r =
     (if r < getRows (contents h this) then
        (case getCols (contents h this) of
           Inl e \<Rightarrow> (Inl e, h)
         | Inr cols \<Rightarrow>
             if cols \<le> lead then (Inr res, h)
             else
               (case rref_while h this res r lead r of
                  Inl e \<Rightarrow> (Inl e, h)
                | Inr None \<Rightarrow> (Inr res, h)
                | Inr (Some (i, lead')) \<Rightarrow>
                    (case rows_swap h res i r of
                       Inl e \<Rightarrow> (Inl e, h)
                     | Inr h1 \<Rightarrow>
                         (case cell_get h1 res r lead' of
                            Inl e \<Rightarrow> (Inl e, h1)
                          | Inr val \<Rightarrow>
                              (case rref_norm h1 this res r val 0 of
                                 (Some e, h2) \<Rightarrow> (Inl e, h2)
                               | (None, h2) \<Rightarrow>
                                   (case rref_elim h2 this res r lead' 0 of
                                      (Some e, h3) \<Rightarrow> (Inl e, h3)
                                    | (None, h3) \<Rightarrow>
                                        rref_r h3 this res (Suc lead') (Suc r)))))))
      else (Inr res, h))"
  by pat_completeness auto
termination
proof (relation "measure (\<lambda>(h, this, res, lead, r). getRows (contents h this) - r)", goal_cases)
  case 1
  show ?case by simp
next
  case (2 h this res lead r cols x2 x3 i lead' h1 val x4 h2 x5 h3)
  have "getRows (contents h1 this) = getRows (contents h this)"
    using 2 rows_swap_same_frame same_frame_getRows by blast
  moreover have "getRows (contents h2 this) = getRows (contents h1 this)"
    using 2 rref_norm_getRows by blast
  moreover have "getRows (contents h3 this) = getRows (contents h2 this)"
    using 2 rref_elim_getRows by blast
  ultimately show ?case using 2 by simp
qed

declare rref_r.simps [simp del]

text \<open>\<open>Matrix.prototype.rref\<close>: \<open>resultMatrix = this.clone()\<close>, then the loop on \<open>r\<close>
  from \<open>lead = 0\<close>.\<close>

definition Matrix_rref :: "heap \<Rightarrow> nat \<Rightarrow> (error + nat) \<times> heap" where
  "Matrix_rref h this = (let (h1, res) = Matrix_clone h this in rref_r h1 this res 0 0)"

text \<open>
  \<open>Matrix.prototype.rank\<close>: \<open>rref = this.rref(); result = 0;
  for (i = 0; i < rref.getCols(); ++i) result += rref.__value[i][i]; return result\<close>
\<close>

function rank_loop :: "heap \<Rightarrow> nat \<Rightarrow> nat \<Rightarrow> jsnum \<Rightarrow> error + jsnum" where
  "rank_loop h rref i result =
     (case getCols (contents h rref) of
        Inl e \<Rightarrow> Inl e
      | Inr cols \<Rightarrow>
          if i < cols then
            (case cell_get h rref i i of
               Inl e \<Rightarrow> Inl e
             | Inr v \<Rightarrow> rank_loop h rref (Suc i) (js_add result v))
          else Inr result)"
  by pat_completeness auto
termination
  by (relation "measure (\<lambda>(h, rref, i, result).
        (case getCols (contents h rref) of Inl e \<Rightarrow> 0 | Inr cols \<Rightarrow> cols - i))") auto

declare rank_loop.simps [simp del]

definition Matrix_rank :: "heap \<Rightarrow> nat \<Rightarrow> (error + jsnum) \<times> heap" where
  "Matrix_rank h this =
     (case Matrix_rref h this of
        (Inl e, h1) \<Rightarrow> (Inl e, h1)
      | (Inr rref, h1) \<Rightarrow> (rank_loop h1 rref 0 (Num 0), h1))"

section \<open>Determinant, solving, inverse\<close>

text \<open>
  \<open>diagproduct\<close>: \<open>fold((acc, x, idx) => { acc *= x[idx]; return acc })(1)(this.__value)\<close>.
\<close>

definition Matrix_diagproduct :: "rows \<Rightarrow> jsnum" where
  "Matrix_diagproduct this = array_fold (\<lambda>acc x i. js_mul acc (get_at x i)) (Num 1) this"

text \<open>\<open>isSquare\<close>: \<open>equals(this.getCols(), this.getRows())\<close>.\<close>

definition isSquare :: "rows \<Rightarrow> error + bool" where
  "isSquare this = (case getCols this of Inl e \<Rightarrow> Inl e | Inr cols \<Rightarrow> Inr (cols = getRows this))"

text \<open>
  \<open>determinant\<close>: not square, the error; two columns, \<open>a * d - b * c\<close> from the four
  cells; otherwise \<open>lu = this.lu()\<close> and
  \<open>Number(lu[0].diagproduct()) * Number(lu[1].diagproduct())\<close> (\<open>Number\<close> leaves a number
  as it is).
\<close>

definition Matrix_determinant :: "heap \<Rightarrow> nat \<Rightarrow> (error + jsnum) \<times> heap" where
  "Matrix_determinant h this =
     (case isSquare (contents h this) of
        Inl e \<Rightarrow> (Inl e, h)
      | Inr False \<Rightarrow>
          (Inl (Error ''The Matrix needs to be a square Matrix to calculate the determinant''), h)
      | Inr True \<Rightarrow>
          (case getCols (contents h this) of
             Inl e \<Rightarrow> (Inl e, h)
           | Inr cols \<Rightarrow>
               if cols = 2 then
                 (case (cell_get h this 0 0, cell_get h this 0 1,
                        cell_get h this 1 0, cell_get h this 1 1) of
                    (Inr a, Inr b, Inr c, Inr d) \<Rightarrow> (Inr (js_sub (js_mul a d) (js_mul b c)), h)
                  | _ \<Rightarrow> (Inl TypeError, h))
               else
                 (case Matrix_lu h this of
                    (Inl e, h') \<Rightarrow> (Inl e, h')
                  | (Inr (L, U), h') \<Rightarrow>
                      (Inr (js_mul (Matrix_diagproduct (contents h' L))
                                   (Matrix_diagproduct (contents h' U))), h'))))"









text \<open>
  \<open>util/identity.js\<close>: \<open>map((rows, jdx) => (idx === jdx) * 1)(m)\<close>, and
  \<open>identity()\<close>: \<open>Matrix.of(matrixIdentity).ap(this)\<close>, which is
  \<open>Matrix.of(this).map(matrixIdentity)\<close>. The Matrix that wraps the function for the
  time of the call is not in the store.
\<close>

definition identity_util :: "jsnum list \<Rightarrow> nat \<Rightarrow> jsnum list" where
  "identity_util m idx = array_map (\<lambda>rows jdx. if idx = jdx then Num 1 else Num 0) m"

definition Matrix_identity :: "heap \<Rightarrow> nat \<Rightarrow> heap \<times> nat" where
  "Matrix_identity h this = Matrix_map h this identity_util"

text \<open>
  \<open>util/concat.js\<close>: \<open>concat(m, M.__value[idx])\<close>, that is
  \<open>Array.prototype.concat(m, M.__value[idx])\<close>: a new array; an \<open>undefined\<close> second
  argument is appended as one element. \<open>this.concat(M)\<close> is \<open>this.map(concat(M))\<close>.
\<close>

definition concat_util :: "rows \<Rightarrow> jsnum list \<Rightarrow> nat \<Rightarrow> jsnum list" where
  "concat_util M m idx = m @ (if idx < length M then M ! idx else [Undefined])"

definition Matrix_concat :: "heap \<Rightarrow> nat \<Rightarrow> nat \<Rightarrow> heap \<times> nat" where
  "Matrix_concat h this M = Matrix_map h this (concat_util (contents h M))"

text \<open>
  \<open>inverse\<close>: \<open>A = this.clone(); I = A.identity(); Inv = A.concat(I).rref()\<close>, then
  \<open>x.slice(x.length / 2, x.length)\<close> of every row of \<open>Inv\<close> pushed on a new array
  (\<open>slice\<close> truncates its first argument), and \<open>Matrix.of(result)\<close>.
\<close>

definition Matrix_inverse :: "heap \<Rightarrow> nat \<Rightarrow> (error + nat) \<times> heap" where
  "Matrix_inverse h this =
     (let (h1, A) = Matrix_clone h this;
          (h2, I) = Matrix_identity h1 A;
          (h3, AI) = Matrix_concat h2 A I
      in case Matrix_rref h3 AI of
           (Inl e, h4) \<Rightarrow> (Inl e, h4)
         | (Inr Inv, h4) \<Rightarrow>
             (let (h5, result) = new_array h4 (map (\<lambda>x. drop (length x div 2) x) (contents h4 Inv));
                  (h6, m) = Matrix_of h5 None (Array result)
              in (Inr m, h6)))"

text \<open>
  What evaluating \<open>Matrix.of([[...], ...])\<close> on an array literal does: the rows and the
  array of rows are allocated, and \<open>Matrix.of\<close> wraps the array.
\<close>

definition matrix_literal :: "heap \<Rightarrow> rows \<Rightarrow> heap \<times> nat" where
  "matrix_literal h rs = (let (h1, a) = new_array h rs in Matrix_of h1 None (Array a))"

section \<open>Notions of the statements and proofs\<close>

definition refs :: "heap \<Rightarrow> nat \<Rightarrow> nat list" where
  "refs h m = outer_at h (mvalue (obj_at h m))"

definition holds :: "heap \<Rightarrow> nat list \<Rightarrow> nat \<Rightarrow> (nat \<Rightarrow> nat \<Rightarrow> real) \<Rightarrow> bool" where
  "holds h rs n M \<longleftrightarrow> (\<forall>i<n. row_at h (rs ! i) = map (\<lambda>j. Num (M i j)) [0..<n])"

definition lu_state ::
  "heap \<Rightarrow> nat \<Rightarrow> nat \<Rightarrow> nat \<Rightarrow> nat \<Rightarrow> (nat \<Rightarrow> nat \<Rightarrow> real) \<Rightarrow> (nat \<Rightarrow> nat \<Rightarrow> real) \<Rightarrow> (nat \<Rightarrow> nat \<Rightarrow> real) \<Rightarrow> bool" where
  "lu_state h A L U n fa fl fu \<longleftrightarrow>
     length (refs h A) = n \<and> length (refs h L) = n \<and> length (refs h U) = n \<and>
     distinct (refs h A @ refs h L @ refs h U) \<and>
     holds h (refs h A) n fa \<and> holds h (refs h L) n fl \<and> holds h (refs h U) n fu"

definition upd :: "(nat \<Rightarrow> nat \<Rightarrow> real) \<Rightarrow> nat \<Rightarrow> nat \<Rightarrow> real \<Rightarrow> nat \<Rightarrow> nat \<Rightarrow> real" where
  "upd M i j v = (\<lambda>i' j'. if i' = i \<and> j' = j then v else M i' j')"

fun working :: "(nat \<Rightarrow> nat \<Rightarrow> real) \<Rightarrow> nat \<Rightarrow> nat \<Rightarrow> nat \<Rightarrow> real" where
  "working M 0 = M"
| "working M (Suc k) =
     (\<lambda>i j. if k < i \<and> k < j
             then working M k i j - working M k i k / working M k k k * working M k k j
             else working M k i j)"

definition lower :: "(nat \<Rightarrow> nat \<Rightarrow> real) \<Rightarrow> nat \<Rightarrow> nat \<Rightarrow> real" where
  "lower M i j = (if i = j then 1 else if j < i then working M j i j / working M j j j else 0)"

definition upper :: "(nat \<Rightarrow> nat \<Rightarrow> real) \<Rightarrow> nat \<Rightarrow> nat \<Rightarrow> real" where
  "upper M i j = (if i \<le> j then working M i i j else 0)"

definition lower_upto :: "(nat \<Rightarrow> nat \<Rightarrow> real) \<Rightarrow> nat \<Rightarrow> nat \<Rightarrow> nat \<Rightarrow> real" where
  "lower_upto M k = (\<lambda>i j. if j < k then lower M i j else 0)"

definition upper_upto :: "(nat \<Rightarrow> nat \<Rightarrow> real) \<Rightarrow> nat \<Rightarrow> nat \<Rightarrow> nat \<Rightarrow> real" where
  "upper_upto M k = (\<lambda>i j. if i < k then upper M i j else 0)"

definition allocated :: "heap \<Rightarrow> nat \<Rightarrow> bool" where
  "allocated h m \<longleftrightarrow>
     m < next_obj h \<and> mvalue (obj_at h m) < next_outer h \<and>
     (\<forall>r\<in>set (outer_at h (mvalue (obj_at h m))). r < next_row h)"

definition heap_ext :: "heap \<Rightarrow> heap \<Rightarrow> bool" where
  "heap_ext h h' \<longleftrightarrow>
     next_row h \<le> next_row h' \<and> next_outer h \<le> next_outer h' \<and> next_obj h \<le> next_obj h' \<and>
     (\<forall>a<next_row h. row_at h' a = row_at h a) \<and>
     (\<forall>a<next_outer h. outer_at h' a = outer_at h a) \<and>
     (\<forall>a<next_obj h. obj_at h' a = obj_at h a)"

text \<open>What building a Matrix from new rows leaves.\<close>

definition built :: "heap \<Rightarrow> rows \<Rightarrow> heap \<Rightarrow> nat \<Rightarrow> bool" where
  "built h rs h' M \<longleftrightarrow>
     heap_ext h h' \<and> M = next_obj h \<and> allocated h' M \<and>
     mvalue (obj_at h' M) = next_outer h \<and>
     refs h' M = [next_row h..<next_row h + length rs] \<and>
     (\<forall>i<length rs. row_at h' (next_row h + i) = rs ! i) \<and>
     next_row h' = next_row h + length rs"

definition rows_only :: "nat set \<Rightarrow> heap \<Rightarrow> heap \<Rightarrow> bool" where
  "rows_only S h h' \<longleftrightarrow>
     outer_at h' = outer_at h \<and> obj_at h' = obj_at h \<and> next_row h' = next_row h \<and>
     next_outer h' = next_outer h \<and> next_obj h' = next_obj h \<and>
     (\<forall>a. a \<notin> S \<longrightarrow> row_at h' a = row_at h a)"

definition grid :: "nat \<Rightarrow> (nat \<Rightarrow> nat \<Rightarrow> real) \<Rightarrow> rows" where
  "grid n f = map (\<lambda>i. map (\<lambda>j. Num (f i j)) [0..<n]) [0..<n]"

text \<open>
  What the loops of \<open>rref\<close> change: only rows with an address in \<open>R\<close> and arrays of
  rows with an address in \<open>Q\<close>, and nothing is allocated. The matrix \<open>res\<close> they
  work on is made of such rows and such an array.
\<close>

definition touches :: "nat set \<Rightarrow> nat set \<Rightarrow> heap \<Rightarrow> heap \<Rightarrow> bool" where
  "touches R Q h h' \<longleftrightarrow>
     obj_at h' = obj_at h \<and> next_row h' = next_row h \<and> next_outer h' = next_outer h \<and>
     next_obj h' = next_obj h \<and>
     (\<forall>a. a \<notin> R \<longrightarrow> row_at h' a = row_at h a) \<and>
     (\<forall>a. a \<notin> Q \<longrightarrow> outer_at h' a = outer_at h a)"

definition fresh :: "nat set \<Rightarrow> nat set \<Rightarrow> heap \<Rightarrow> nat \<Rightarrow> bool" where
  "fresh R Q h res \<longleftrightarrow> mvalue (obj_at h res) \<in> Q \<and> set (refs h res) \<subseteq> R"

definition keeps :: "nat set \<Rightarrow> nat set \<Rightarrow> nat \<Rightarrow> heap \<Rightarrow> heap \<Rightarrow> bool" where
  "keeps R Q res h h' \<longleftrightarrow> touches R Q h h' \<and> fresh R Q h' res"

section \<open>Properties of the combinators\<close>

lemma array_map_from_eq:
  "array_map_from i cb a = map (\<lambda>k. cb (a ! k) (i + k)) [0..<length a]"
proof (induction a arbitrary: i)
  case Nil
  show ?case by simp
next
  case (Cons x xs)
  have "map (\<lambda>k. cb ((x # xs) ! k) (i + k)) [0..<length (x # xs)] =
        cb x i # map (\<lambda>k. cb (xs ! k) (Suc i + k)) [0..<length xs]"
    by (simp add: upt_conv_Cons map_Suc_upt [symmetric] del: upt_Suc)
  with Cons show ?case by simp
qed

lemma array_map_eq: "array_map cb a = map (\<lambda>k. cb (a ! k) k) [0..<length a]"
  by (simp add: array_map_def array_map_from_eq)

lemma length_array_map [simp]: "length (array_map cb a) = length a"
  by (simp add: array_map_eq)

lemma nth_array_map [simp]: "k < length a \<Longrightarrow> array_map cb a ! k = cb (a ! k) k"
  by (simp add: array_map_eq)






section \<open>Transposition\<close>

definition cols_of :: "nat \<Rightarrow> rows \<Rightarrow> rows" where
  "cols_of n c = map (\<lambda>i. map (\<lambda>r. r ! i) c) [0..<n]"

lemma transpose_util_first:
  "length next = n \<Longrightarrow> transpose_util [] next = cols_of n [next]"
  by (simp add: transpose_util_def array_map_eq cols_of_def)

lemma transpose_util_step:
  "length next = n \<Longrightarrow> transpose_util (cols_of n pre) next = cols_of n (pre @ [next])"
  by (simp add: transpose_util_def array_map_eq cols_of_def)

lemma transpose_fold:
  assumes "0 < n" and "\<forall>r\<in>set rs. length r = n"
    and "acc = (if pre = [] then [] else cols_of n pre)"
  shows "array_fold_from i (\<lambda>prev next i. transpose_util prev next) acc rs =
         (if pre @ rs = [] then [] else cols_of n (pre @ rs))"
  using assms
proof (induction rs arbitrary: i acc pre)
  case Nil
  then show ?case by simp
next
  case (Cons r rs)
  have len: "length r = n" using Cons.prems by simp
  have step: "transpose_util acc r = cols_of n (pre @ [r])"
    using Cons.prems(3) len transpose_util_first [of r n] transpose_util_step [of r n pre]
    by (cases "pre = []") simp_all
  have "array_fold_from (Suc i) (\<lambda>prev next i. transpose_util prev next)
          (transpose_util acc r) rs =
        (if (pre @ [r]) @ rs = [] then [] else cols_of n ((pre @ [r]) @ rs))"
    by (rule Cons.IH) (use Cons.prems step in simp_all)
  then show ?case by simp
qed

lemma Matrix_transpose_eq:
  assumes "0 < n" and "\<forall>r\<in>set c. length r = n" and "c \<noteq> []"
  shows "Matrix_transpose c = cols_of n c"
  using transpose_fold [OF assms(1,2), of "[]" "[]" 0] assms(3)
  by (simp add: Matrix_transpose_def array_fold_def)

lemma cols_of_cols_of:
  assumes "\<forall>r\<in>set c. length r = n"
  shows "cols_of (length c) (cols_of n c) = c"
proof (rule nth_equalityI)
  show "length (cols_of (length c) (cols_of n c)) = length c"
    by (simp add: cols_of_def)
next
  fix j assume "j < length (cols_of (length c) (cols_of n c))"
  then have j: "j < length c" by (simp add: cols_of_def)
  then have len: "length (c ! j) = n" using assms by simp
  have "cols_of (length c) (cols_of n c) ! j = map (\<lambda>i. c ! j ! i) [0..<n]"
    using j by (simp add: cols_of_def)
  also have "\<dots> = c ! j"
    using len map_nth [of "c ! j"] by simp
  finally show "cols_of (length c) (cols_of n c) ! j = c ! j" .
qed

section \<open>Elementwise arithmetic\<close>

lemma elementwise_Mat:
  assumes "this \<noteq> []" and "m \<noteq> []"
  shows "elementwise op msg this (Mat m) =
         (if length (hd this) \<noteq> length (hd m) \<or> length this \<noteq> length m then Inl (Error msg)
          else Inr (map (\<lambda>i. map (\<lambda>j. op (this ! i ! j) (get_at (m ! i) j))
                                [0..<length (this ! i)]) [0..<length this]))"
  using assms
  by (cases this; cases m) (simp_all add: elementwise_def getCols_def getRows_def array_map_eq)

lemma map_upt_nth: "map (\<lambda>j. f (xs ! j)) [0..<length xs] = map f xs"
  by (rule nth_equalityI) simp_all

lemma elementwise_Scalar:
  "elementwise op msg this (Scalar x) = Inr (map (map (\<lambda>v. op v x)) this)"
proof -
  have "map (\<lambda>i. map (\<lambda>j. op (this ! i ! j) x) [0..<length (this ! i)]) [0..<length this] =
        map (\<lambda>i. map (\<lambda>v. op v x) (this ! i)) [0..<length this]"
    by (simp add: map_upt_nth [of "\<lambda>v. op v x"])
  also have "\<dots> = map (map (\<lambda>v. op v x)) this"
    by (rule map_upt_nth [of "map (\<lambda>v. op v x)"])
  finally show ?thesis
    by (simp add: elementwise_def array_map_eq)
qed

text \<open>
  C6. For a receiver and a Matrix argument that both have a first row (so that their
  column counts exist), \<open>add\<close>, \<open>subtract\<close> and \<open>multiply\<close> throw their shape-mismatch
  error exactly when the column counts or the row counts differ, and return a matrix
  otherwise; with a scalar argument they return the receiver with the operation applied
  to every element, whatever the receiver is.
\<close>

theorem elementwise_shape_check:
  assumes "this \<noteq> []" and "m \<noteq> []"
  shows "(Matrix_add this (Mat m) = Inl (Error ''Matrices do not match, cannot add'')
            \<longleftrightarrow> getCols this \<noteq> getCols m \<or> getRows this \<noteq> getRows m) \<and>
         (Matrix_subtract this (Mat m) = Inl (Error ''Matrices do not match, cannot subtract'')
            \<longleftrightarrow> getCols this \<noteq> getCols m \<or> getRows this \<noteq> getRows m) \<and>
         (Matrix_multiply this (Mat m) =
            Inl (Error ''Matrices do not match, cannot create hadamard product'')
            \<longleftrightarrow> getCols this \<noteq> getCols m \<or> getRows this \<noteq> getRows m) \<and>
         ((getCols this = getCols m \<and> getRows this = getRows m) \<longrightarrow>
            (\<exists>r1 r2 r3. Matrix_add this (Mat m) = Inr r1 \<and>
               Matrix_subtract this (Mat m) = Inr r2 \<and> Matrix_multiply this (Mat m) = Inr r3)) \<and>
         Matrix_add any (Scalar x) = Inr (map (map (\<lambda>v. js_add v x)) any) \<and>
         Matrix_subtract any (Scalar x) = Inr (map (map (\<lambda>v. js_sub v x)) any) \<and>
         Matrix_multiply any (Scalar x) = Inr (map (map (\<lambda>v. js_mul v x)) any)"
proof -
  have "getCols this = Inr (length (hd this))"
    using assms(1) by (cases this) (simp_all add: getCols_def)
  moreover have "getCols m = Inr (length (hd m))"
    using assms(2) by (cases m) (simp_all add: getCols_def)
  ultimately have cols: "getCols this = Inr (length (hd this))" "getCols m = Inr (length (hd m))"
    by simp_all
  show ?thesis
    unfolding Matrix_add_def Matrix_subtract_def Matrix_multiply_def
      elementwise_Mat [OF assms] elementwise_Scalar cols getRows_def
    by simp
qed

theorem elementwise_shape_check_witness:
  "Matrix_add [[Num 1, Num 2]] (Mat [[Num 1], [Num 2]])
     = Inl (Error ''Matrices do not match, cannot add'') \<and>
   Matrix_multiply [[Num 1, Num 2]] (Mat [[Num 3, Num 4]]) = Inr [[Num 3, Num 8]] \<and>
   Matrix_subtract [[Num 1, Num 2]] (Scalar (Num 1)) = Inr [[Num 0, Num 1]]"
proof -
  have ne: "[[Num 1, Num 2]] \<noteq> []" "[[Num 1], [Num 2]] \<noteq> []"
    by simp_all
  have "Matrix_add [[Num 1, Num 2]] (Mat [[Num 1], [Num 2]])
     = Inl (Error ''Matrices do not match, cannot add'')"
    using elementwise_shape_check [OF ne]
    by (simp add: getCols_def getRows_def)
  moreover have "Matrix_multiply [[Num 1, Num 2]] (Mat [[Num 3, Num 4]]) = Inr [[Num 3, Num 8]]"
    by (simp add: Matrix_multiply_def elementwise_def getCols_def getRows_def array_map_def
        get_at_def)
  moreover have "Matrix_subtract [[Num 1, Num 2]] (Scalar (Num 1)) = Inr [[Num 0, Num 1]]"
    by (simp add: Matrix_subtract_def elementwise_def array_map_def)
  ultimately show ?thesis by simp
qed

section \<open>The matrix product\<close>




section \<open>Transposition, twice\<close>

text \<open>
  C8 (amended). For every matrix whose rows all have the same length \<open>n\<close>, with at
  least one column, transposing twice gives the matrix back; and when it has at least
  one row, its transpose has \<open>n\<close> rows, each as long as the matrix has rows, with
  element \<open>[i][j]\<close> equal to element \<open>[j][i]\<close> of the matrix.
\<close>

theorem transpose_transpose:
  assumes "\<forall>r\<in>set c. length r = n" and "0 < n"
  shows "Matrix_transpose (Matrix_transpose c) = c \<and>
         (c \<noteq> [] \<longrightarrow> length (Matrix_transpose c) = n \<and>
            (\<forall>i<n. length (Matrix_transpose c ! i) = length c \<and>
               (\<forall>j<length c. Matrix_transpose c ! i ! j = c ! j ! i)))"
proof (cases "c = []")
  case True
  then show ?thesis by (simp add: Matrix_transpose_def array_fold_def)
next
  case False
  have t: "Matrix_transpose c = cols_of n c"
    by (rule Matrix_transpose_eq) (use assms False in simp_all)
  have rect: "\<forall>r\<in>set (cols_of n c). length r = length c"
    by (simp add: cols_of_def)
  have ne: "cols_of n c \<noteq> []"
    using assms(2) by (simp add: cols_of_def)
  have "Matrix_transpose (cols_of n c) = cols_of (length c) (cols_of n c)"
    by (rule Matrix_transpose_eq) (use rect ne False in simp_all)
  then have "Matrix_transpose (Matrix_transpose c) = c"
    using t cols_of_cols_of [OF assms(1)] by simp
  moreover have "length (cols_of n c) = n"
    by (simp add: cols_of_def)
  moreover have "\<forall>i<n. length (cols_of n c ! i) = length c \<and>
                   (\<forall>j<length c. cols_of n c ! i ! j = c ! j ! i)"
    by (simp add: cols_of_def)
  ultimately show ?thesis using t by simp
qed

theorem transpose_transpose_witness:
  "Matrix_transpose (Matrix_transpose [[Num (-1), Num 2], [Num 3, Num 4], [Num (-8), Num 2]])
     = [[Num (-1), Num 2], [Num 3, Num 4], [Num (-8), Num 2]] \<and>
   Matrix_transpose [[Num (-1), Num 2], [Num 3, Num 4], [Num (-8), Num 2]]
     = [[Num (-1), Num 3, Num (-8)], [Num 2, Num 4, Num 2]]"
proof -
  have "Matrix_transpose [[Num (-1), Num 2], [Num 3, Num 4], [Num (-8), Num 2]]
     = [[Num (-1), Num 3, Num (-8)], [Num 2, Num 4, Num 2]]"
    by (simp add: Matrix_transpose_def array_fold_def transpose_util_def array_map_def)
  moreover have "Matrix_transpose (Matrix_transpose [[Num (-1), Num 2], [Num 3, Num 4], [Num (-8), Num 2]])
     = [[Num (-1), Num 2], [Num 3, Num 4], [Num (-8), Num 2]]"
    using transpose_transpose [of "[[Num (-1), Num 2], [Num 3, Num 4], [Num (-8), Num 2]]" 2]
    by simp
  ultimately show ?thesis by simp
qed

text \<open>
  The claim as stated, for every matrix, fails on the matrix with two rows and no
  column (the result of \<open>empty()\<close> on a matrix of two rows): its transpose has no rows.
\<close>

theorem transpose_transpose_counterexample:
  "Matrix_transpose (Matrix_transpose [[], []]) \<noteq> [[], []]"
  by (simp add: Matrix_transpose_def array_fold_def transpose_util_def array_map_def)

section \<open>The store during \<open>lu\<close>\<close>

lemma lu_j_done [simp]: "\<not> j < n \<Longrightarrow> lu_j h A L k i n j = (None, h)"
  by (subst lu_j.simps) simp

lemma lu_i_done [simp]: "\<not> i < n \<Longrightarrow> lu_i h A L k n i = (None, h)"
  by (subst lu_i.simps) simp

lemma lu_l_done [simp]: "\<not> l < n \<Longrightarrow> lu_l h A U k n l = (None, h)"
  by (subst lu_l.simps) simp

lemma lu_k_done [simp]: "\<not> k < n \<Longrightarrow> lu_k h A L U n k = (None, h)"
  by (subst lu_k.simps) simp

lemma refs_row_update [simp]: "refs (h\<lparr>row_at := f\<rparr>) m = refs h m"
  by (simp add: refs_def)

lemma rowref_refs: "i < length (refs h m) \<Longrightarrow> rowref h m i = Some (refs h m ! i)"
  by (simp add: rowref_def refs_def)

lemma holds_read:
  "holds h rs n M \<Longrightarrow> i < n \<Longrightarrow> j < n \<Longrightarrow> get_at (row_at h (rs ! i)) j = Num (M i j)"
  by (simp add: holds_def get_at_def)

lemma put_at_map_upt:
  "j < n \<Longrightarrow> put_at (map f [0..<n]) j v = map (f(j := v)) [0..<n]"
  by (auto simp: put_at_def intro!: nth_equalityI simp: nth_list_update)

lemma holds_write_same:
  assumes "holds h rs n M" and "i < n" and "j < n" and "distinct rs" and "length rs = n"
  shows "holds (h\<lparr>row_at := (row_at h)(rs ! i := put_at (row_at h (rs ! i)) j (Num v))\<rparr>) rs n
           (upd M i j v)"
  unfolding holds_def
proof (intro allI impI)
  fix i' assume i': "i' < n"
  have row: "row_at h (rs ! i) = map (\<lambda>j. Num (M i j)) [0..<n]"
    using assms(1,2) by (simp add: holds_def)
  show "row_at (h\<lparr>row_at := (row_at h)(rs ! i := put_at (row_at h (rs ! i)) j (Num v))\<rparr>) (rs ! i')
        = map (\<lambda>j'. Num (upd M i j v i' j')) [0..<n]"
  proof (cases "i' = i")
    case True
    then show ?thesis
      using assms(3) by (simp add: row put_at_map_upt upd_def fun_upd_def)
  next
    case False
    then have "rs ! i' \<noteq> rs ! i"
      using assms(2,4,5) i' by (simp add: nth_eq_iff_index_eq)
    then show ?thesis
      using assms(1) i' False by (simp add: holds_def upd_def)
  qed
qed

lemma holds_write_other:
  assumes "holds h rs n M" and "r \<notin> set rs" and "length rs = n"
  shows "holds (h\<lparr>row_at := (row_at h)(r := x)\<rparr>) rs n M"
  using assms by (auto simp: holds_def)

lemma lu_state_get:
  assumes "lu_state h A L U n fa fl fu" and "i < n" and "j < n"
  shows "cell_get h A i j = Inr (Num (fa i j))"
    and "cell_get h L i j = Inr (Num (fl i j))"
    and "cell_get h U i j = Inr (Num (fu i j))"
proof -
  have len: "length (refs h A) = n" "length (refs h L) = n" "length (refs h U) = n"
    and hs: "holds h (refs h A) n fa" "holds h (refs h L) n fl" "holds h (refs h U) n fu"
    using assms(1) by (simp_all add: lu_state_def)
  show "cell_get h A i j = Inr (Num (fa i j))"
    using holds_read [OF hs(1) assms(2,3)] len assms(2) by (simp add: cell_get_def rowref_refs)
  show "cell_get h L i j = Inr (Num (fl i j))"
    using holds_read [OF hs(2) assms(2,3)] len assms(2) by (simp add: cell_get_def rowref_refs)
  show "cell_get h U i j = Inr (Num (fu i j))"
    using holds_read [OF hs(3) assms(2,3)] len assms(2) by (simp add: cell_get_def rowref_refs)
qed

lemma lu_state_set_A:
  assumes "lu_state h A L U n fa fl fu" and "i < n" and "j < n"
  shows "\<exists>h'. cell_set h A i j (Num v) = Inr h' \<and> lu_state h' A L U n (upd fa i j v) fl fu"
proof -
  let ?r = "refs h A ! i"
  let ?h = "h\<lparr>row_at := (row_at h)(?r := put_at (row_at h ?r) j (Num v))\<rparr>"
  have len: "length (refs h A) = n" "length (refs h L) = n" "length (refs h U) = n"
    and dist: "distinct (refs h A @ refs h L @ refs h U)"
    using assms(1) by (simp_all add: lu_state_def)
  have rin: "?r \<in> set (refs h A)" using len assms(2) by simp
  have "cell_set h A i j (Num v) = Inr ?h"
    using len assms(2) by (simp add: cell_set_def rowref_refs)
  moreover have "holds ?h (refs h A) n (upd fa i j v)"
    using assms dist len by (intro holds_write_same) (simp_all add: lu_state_def)
  moreover have "holds ?h (refs h L) n fl"
    using assms(1) dist rin len by (intro holds_write_other) (auto simp: lu_state_def)
  moreover have "holds ?h (refs h U) n fu"
    using assms(1) dist rin len by (intro holds_write_other) (auto simp: lu_state_def)
  ultimately show ?thesis
    using len dist by (simp add: lu_state_def)
qed

lemma lu_state_set_L:
  assumes "lu_state h A L U n fa fl fu" and "i < n" and "j < n"
  shows "\<exists>h'. cell_set h L i j (Num v) = Inr h' \<and> lu_state h' A L U n fa (upd fl i j v) fu"
proof -
  let ?r = "refs h L ! i"
  let ?h = "h\<lparr>row_at := (row_at h)(?r := put_at (row_at h ?r) j (Num v))\<rparr>"
  have len: "length (refs h A) = n" "length (refs h L) = n" "length (refs h U) = n"
    and dist: "distinct (refs h A @ refs h L @ refs h U)"
    using assms(1) by (simp_all add: lu_state_def)
  have rin: "?r \<in> set (refs h L)" using len assms(2) by simp
  have "cell_set h L i j (Num v) = Inr ?h"
    using len assms(2) by (simp add: cell_set_def rowref_refs)
  moreover have "holds ?h (refs h L) n (upd fl i j v)"
    using assms dist len by (intro holds_write_same) (simp_all add: lu_state_def)
  moreover have "holds ?h (refs h A) n fa"
    using assms(1) dist rin len by (intro holds_write_other) (auto simp: lu_state_def)
  moreover have "holds ?h (refs h U) n fu"
    using assms(1) dist rin len by (intro holds_write_other) (auto simp: lu_state_def)
  ultimately show ?thesis
    using len dist by (simp add: lu_state_def)
qed

lemma lu_state_set_U:
  assumes "lu_state h A L U n fa fl fu" and "i < n" and "j < n"
  shows "\<exists>h'. cell_set h U i j (Num v) = Inr h' \<and> lu_state h' A L U n fa fl (upd fu i j v)"
proof -
  let ?r = "refs h U ! i"
  let ?h = "h\<lparr>row_at := (row_at h)(?r := put_at (row_at h ?r) j (Num v))\<rparr>"
  have len: "length (refs h A) = n" "length (refs h L) = n" "length (refs h U) = n"
    and dist: "distinct (refs h A @ refs h L @ refs h U)"
    using assms(1) by (simp_all add: lu_state_def)
  have rin: "?r \<in> set (refs h U)" using len assms(2) by simp
  have "cell_set h U i j (Num v) = Inr ?h"
    using len assms(2) by (simp add: cell_set_def rowref_refs)
  moreover have "holds ?h (refs h U) n (upd fu i j v)"
    using assms dist len by (intro holds_write_same) (simp_all add: lu_state_def)
  moreover have "holds ?h (refs h A) n fa"
    using assms(1) dist rin len by (intro holds_write_other) (auto simp: lu_state_def)
  moreover have "holds ?h (refs h L) n fl"
    using assms(1) dist rin len by (intro holds_write_other) (auto simp: lu_state_def)
  ultimately show ?thesis
    using len dist by (simp add: lu_state_def)
qed

lemma lu_j_run:
  assumes "lu_state h A L U n fa fl fu" and "i < n" and "k < n" and "i \<noteq> k"
  shows "\<exists>h'. lu_j h A L k i n j0 = (None, h') \<and>
           lu_state h' A L U n
             (\<lambda>i' j'. if i' = i \<and> j0 \<le> j' then fa i j' - fl i k * fa k j' else fa i' j') fl fu"
  using assms
proof (induction "n - j0" arbitrary: j0 h fa)
  case 0
  then have "\<not> j0 < n" by simp
  moreover have "lu_state h A L U n
             (\<lambda>i' j'. if i' = i \<and> j0 \<le> j' then fa i j' - fl i k * fa k j' else fa i' j') fl fu"
    using 0 by (auto simp: lu_state_def holds_def)
  ultimately show ?case by simp
next
  case (Suc d)
  then have j0: "j0 < n" by simp
  let ?v = "fa i j0 - fl i k * fa k j0"
  obtain h1 where h1: "cell_set h A i j0 (Num ?v) = Inr h1"
    and st1: "lu_state h1 A L U n (upd fa i j0 ?v) fl fu"
    using lu_state_set_A [OF Suc.prems(1) \<open>i < n\<close> j0] by blast
  have d: "d = n - Suc j0" using Suc.hyps(2) by simp
  obtain h' where run: "lu_j h1 A L k i n (Suc j0) = (None, h')"
    and st': "lu_state h' A L U n
       (\<lambda>i' j'. if i' = i \<and> Suc j0 \<le> j'
                 then upd fa i j0 ?v i j' - fl i k * upd fa i j0 ?v k j'
                 else upd fa i j0 ?v i' j') fl fu"
    using Suc.hyps(1) [OF d st1 \<open>i < n\<close> \<open>k < n\<close> \<open>i \<noteq> k\<close>] by blast
  have eq: "(\<lambda>i' j'. if i' = i \<and> Suc j0 \<le> j'
                 then upd fa i j0 ?v i j' - fl i k * upd fa i j0 ?v k j'
                 else upd fa i j0 ?v i' j') =
            (\<lambda>i' j'. if i' = i \<and> j0 \<le> j' then fa i j' - fl i k * fa k j' else fa i' j')"
    using \<open>i \<noteq> k\<close> by (auto simp: upd_def fun_eq_iff)
  have "lu_j h A L k i n j0 = lu_j h1 A L k i n (Suc j0)"
    using j0 lu_state_get [OF Suc.prems(1)] \<open>i < n\<close> \<open>k < n\<close> h1
    by (subst lu_j.simps) simp
  then show ?case using run st' eq by simp
qed

lemma lu_i_run:
  assumes "lu_state h A L U n fa fl fu" and "k < n" and "fa k k \<noteq> 0" and "k < i0"
  shows "\<exists>h'. lu_i h A L k n i0 = (None, h') \<and>
           lu_state h' A L U n
             (\<lambda>i j. if i0 \<le> i \<and> k < j then fa i j - fa i k / fa k k * fa k j else fa i j)
             (\<lambda>i j. if i0 \<le> i \<and> j = k then fa i k / fa k k else fl i j) fu"
  using assms
proof (induction "n - i0" arbitrary: i0 h fa fl)
  case 0
  then have "\<not> i0 < n" by simp
  moreover have "lu_state h A L U n
             (\<lambda>i j. if i0 \<le> i \<and> k < j then fa i j - fa i k / fa k k * fa k j else fa i j)
             (\<lambda>i j. if i0 \<le> i \<and> j = k then fa i k / fa k k else fl i j) fu"
    using 0 by (auto simp: lu_state_def holds_def)
  ultimately show ?case by simp
next
  case (Suc d)
  then have i0: "i0 < n" and ik: "i0 \<noteq> k" by simp_all
  let ?m = "fa i0 k / fa k k"
  let ?fl1 = "upd fl i0 k ?m"
  obtain h1 where h1: "cell_set h L i0 k (Num ?m) = Inr h1"
    and st1: "lu_state h1 A L U n fa ?fl1 fu"
    using lu_state_set_L [OF Suc.prems(1) i0 \<open>k < n\<close>] by blast
  let ?fa2 = "\<lambda>i' j'. if i' = i0 \<and> Suc k \<le> j' then fa i0 j' - ?fl1 i0 k * fa k j' else fa i' j'"
  obtain h2 where h2: "lu_j h1 A L k i0 n (Suc k) = (None, h2)"
    and st2: "lu_state h2 A L U n ?fa2 ?fl1 fu"
    using lu_j_run [OF st1 i0 \<open>k < n\<close> ik] by blast
  have d: "d = n - Suc i0" using Suc.hyps(2) by simp
  have piv: "?fa2 k k \<noteq> 0" using Suc.prems(3) by simp
  have lt: "k < Suc i0" using Suc.prems(4) by simp
  obtain h' where run: "lu_i h2 A L k n (Suc i0) = (None, h')"
    and st': "lu_state h' A L U n
             (\<lambda>i j. if Suc i0 \<le> i \<and> k < j then ?fa2 i j - ?fa2 i k / ?fa2 k k * ?fa2 k j else ?fa2 i j)
             (\<lambda>i j. if Suc i0 \<le> i \<and> j = k then ?fa2 i k / ?fa2 k k else ?fl1 i j) fu"
    using Suc.hyps(1) [OF d st2 \<open>k < n\<close> piv lt] by blast
  have eqA: "(\<lambda>i j. if Suc i0 \<le> i \<and> k < j then ?fa2 i j - ?fa2 i k / ?fa2 k k * ?fa2 k j else ?fa2 i j)
           = (\<lambda>i j. if i0 \<le> i \<and> k < j then fa i j - fa i k / fa k k * fa k j else fa i j)"
    using ik by (auto simp: upd_def fun_eq_iff)
  have eqL: "(\<lambda>i j. if Suc i0 \<le> i \<and> j = k then ?fa2 i k / ?fa2 k k else ?fl1 i j)
           = (\<lambda>i j. if i0 \<le> i \<and> j = k then fa i k / fa k k else fl i j)"
    using ik by (auto simp: upd_def fun_eq_iff)
  have "lu_i h A L k n i0 = lu_i h2 A L k n (Suc i0)"
    using i0 lu_state_get [OF Suc.prems(1)] \<open>k < n\<close> h1 h2 Suc.prems(3)
    by (subst lu_i.simps) simp
  then show ?case using run st' eqA eqL by simp
qed

lemma lu_l_run:
  assumes "lu_state h A L U n fa fl fu" and "k < n"
  shows "\<exists>h'. lu_l h A U k n l0 = (None, h') \<and>
           lu_state h' A L U n fa fl (\<lambda>i j. if i = k \<and> l0 \<le> j then fa k j else fu i j)"
  using assms
proof (induction "n - l0" arbitrary: l0 h fu)
  case 0
  then have "\<not> l0 < n" by simp
  moreover have "lu_state h A L U n fa fl (\<lambda>i j. if i = k \<and> l0 \<le> j then fa k j else fu i j)"
    using 0 by (auto simp: lu_state_def holds_def)
  ultimately show ?case by simp
next
  case (Suc d)
  then have l0: "l0 < n" by simp
  obtain h1 where h1: "cell_set h U k l0 (Num (fa k l0)) = Inr h1"
    and st1: "lu_state h1 A L U n fa fl (upd fu k l0 (fa k l0))"
    using lu_state_set_U [OF Suc.prems(1) \<open>k < n\<close> l0] by blast
  have d: "d = n - Suc l0" using Suc.hyps(2) by simp
  obtain h' where run: "lu_l h1 A U k n (Suc l0) = (None, h')"
    and st': "lu_state h' A L U n fa fl
         (\<lambda>i j. if i = k \<and> Suc l0 \<le> j then fa k j else upd fu k l0 (fa k l0) i j)"
    using Suc.hyps(1) [OF d st1 \<open>k < n\<close>] by blast
  have eq: "(\<lambda>i j. if i = k \<and> Suc l0 \<le> j then fa k j else upd fu k l0 (fa k l0) i j)
          = (\<lambda>i j. if i = k \<and> l0 \<le> j then fa k j else fu i j)"
    by (auto simp: upd_def fun_eq_iff)
  have "lu_l h A U k n l0 = lu_l h1 A U k n (Suc l0)"
    using l0 lu_state_get [OF Suc.prems(1)] \<open>k < n\<close> h1
    by (subst lu_l.simps) simp
  then show ?case using run st' eq by simp
qed

lemma lu_k_step:
  assumes st: "lu_state h A L U n (working M k) (lower_upto M k) (upper_upto M k)"
    and k: "k < n" and piv: "\<not> \<bar>working M k k k\<bar> < tol"
  shows "\<exists>h3. lu_k h A L U n k = lu_k h3 A L U n (Suc k) \<and>
           lu_state h3 A L U n (working M (Suc k)) (lower_upto M (Suc k)) (upper_upto M (Suc k))"
proof -
  let ?W = "working M k"
  have nz: "?W k k \<noteq> 0" using piv by (auto simp: tol_def)
  let ?fl1 = "upd (lower_upto M k) k k 1"
  obtain h1 where h1: "cell_set h L k k (Num 1) = Inr h1"
    and st1: "lu_state h1 A L U n ?W ?fl1 (upper_upto M k)"
    using lu_state_set_L [OF st k k] by blast
  obtain h2 where h2: "lu_i h1 A L k n (Suc k) = (None, h2)"
    and st2: "lu_state h2 A L U n
             (\<lambda>i j. if Suc k \<le> i \<and> k < j then ?W i j - ?W i k / ?W k k * ?W k j else ?W i j)
             (\<lambda>i j. if Suc k \<le> i \<and> j = k then ?W i k / ?W k k else ?fl1 i j) (upper_upto M k)"
    using lu_i_run [OF st1 k nz] by blast
  have eqA: "(\<lambda>i j. if Suc k \<le> i \<and> k < j then ?W i j - ?W i k / ?W k k * ?W k j else ?W i j)
           = working M (Suc k)"
    by (auto simp: fun_eq_iff)
  have eqL: "(\<lambda>i j. if Suc k \<le> i \<and> j = k then ?W i k / ?W k k else ?fl1 i j) = lower_upto M (Suc k)"
    by (auto simp: fun_eq_iff upd_def lower_upto_def lower_def)
  have st2': "lu_state h2 A L U n (working M (Suc k)) (lower_upto M (Suc k)) (upper_upto M k)"
    using st2 unfolding eqA eqL .
  obtain h3 where h3: "lu_l h2 A U k n k = (None, h3)"
    and st3: "lu_state h3 A L U n (working M (Suc k)) (lower_upto M (Suc k))
         (\<lambda>i j. if i = k \<and> k \<le> j then working M (Suc k) k j else upper_upto M k i j)"
    using lu_l_run [OF st2' k] by blast
  have eqU: "(\<lambda>i j. if i = k \<and> k \<le> j then working M (Suc k) k j else upper_upto M k i j)
          = upper_upto M (Suc k)"
    by (auto simp: fun_eq_iff upper_upto_def upper_def less_Suc_eq)
  have "lu_k h A L U n k = lu_k h3 A L U n (Suc k)"
    using k lu_state_get(1) [OF st k k] piv h1 h2 h3
    by (subst lu_k.simps) simp
  then show ?thesis using st3 unfolding eqU by blast
qed

lemma lu_k_success:
  assumes "lu_state h A L U n (working M k) (lower_upto M k) (upper_upto M k)"
    and "k \<le> n" and "\<forall>k'. k \<le> k' \<and> k' < n \<longrightarrow> \<not> \<bar>working M k' k' k'\<bar> < tol"
  shows "\<exists>h'. lu_k h A L U n k = (None, h') \<and>
           lu_state h' A L U n (working M n) (lower_upto M n) (upper_upto M n)"
  using assms
proof (induction "n - k" arbitrary: k h)
  case 0
  then have "k = n" by simp
  then show ?case using 0 by simp
next
  case (Suc d)
  then have k: "k < n" by simp
  have piv: "\<not> \<bar>working M k k k\<bar> < tol" using Suc.prems(3) k by simp
  obtain h3 where eq: "lu_k h A L U n k = lu_k h3 A L U n (Suc k)"
    and st3: "lu_state h3 A L U n (working M (Suc k)) (lower_upto M (Suc k)) (upper_upto M (Suc k))"
    using lu_k_step [OF Suc.prems(1) k piv] by blast
  have "\<exists>h'. lu_k h3 A L U n (Suc k) = (None, h') \<and>
           lu_state h' A L U n (working M n) (lower_upto M n) (upper_upto M n)"
    by (rule Suc.hyps(1)) (use Suc.hyps(2) Suc.prems k st3 in auto)
  then show ?case using eq by simp
qed

lemma lu_k_failure:
  assumes "lu_state h A L U n (working M k) (lower_upto M k) (upper_upto M k)"
    and "k \<le> k0" and "k0 < n" and "\<bar>working M k0 k0 k0\<bar> < tol"
    and "\<forall>k'. k \<le> k' \<and> k' < k0 \<longrightarrow> \<not> \<bar>working M k' k' k'\<bar> < tol"
  shows "\<exists>h'. lu_k h A L U n k = (Some (Error ''Cannot proceed without a row exchange''), h') \<and>
           lu_state h' A L U n (working M k0) (lower_upto M k0) (upper_upto M k0)"
  using assms
proof (induction "k0 - k" arbitrary: k h)
  case 0
  then have "k = k0" by simp
  then show ?case
    using 0 lu_state_get(1) [OF "0.prems"(1), of k k]
    by (subst lu_k.simps) simp
next
  case (Suc d)
  then have k: "k < k0" "k < n" by simp_all
  have piv: "\<not> \<bar>working M k k k\<bar> < tol" using Suc.prems(5) k by simp
  obtain h3 where eq: "lu_k h A L U n k = lu_k h3 A L U n (Suc k)"
    and st3: "lu_state h3 A L U n (working M (Suc k)) (lower_upto M (Suc k)) (upper_upto M (Suc k))"
    using lu_k_step [OF Suc.prems(1) k(2) piv] by blast
  have "\<exists>h'. lu_k h3 A L U n (Suc k) = (Some (Error ''Cannot proceed without a row exchange''), h') \<and>
           lu_state h' A L U n (working M k0) (lower_upto M k0) (upper_upto M k0)"
    by (rule Suc.hyps(1)) (use Suc.hyps(2) Suc.prems k st3 in auto)
  then show ?case using eq by simp
qed

section \<open>Allocation\<close>

lemma heap_ext_refl [simp]: "heap_ext h h"
  by (simp add: heap_ext_def)

lemma heap_ext_trans: "heap_ext h1 h2 \<Longrightarrow> heap_ext h2 h3 \<Longrightarrow> heap_ext h1 h3"
  by (auto simp: heap_ext_def)

lemma heap_ext_allocated:
  assumes "heap_ext h h'" and "allocated h m"
  shows "allocated h' m" and "refs h' m = refs h m" and "contents h' m = contents h m"
    and "precision (obj_at h' m) = precision (obj_at h m)"
proof -
  have o: "obj_at h' m = obj_at h m" and a: "outer_at h' (mvalue (obj_at h m)) = outer_at h (mvalue (obj_at h m))"
    using assms by (auto simp: heap_ext_def allocated_def)
  show "refs h' m = refs h m" by (simp add: refs_def o a)
  show "allocated h' m" using assms o a by (auto simp: allocated_def heap_ext_def)
  show "contents h' m = contents h m"
    using assms o a by (auto simp: contents_def rows_at_def allocated_def heap_ext_def)
  show "precision (obj_at h' m) = precision (obj_at h m)" by (simp add: o)
qed

lemma new_array_built:
  "(let (h1, a) = new_array h rs in Matrix_of h1 None (Array a)) = (h', M) \<Longrightarrow> built h rs h' M"
  by (auto simp: new_array_def new_rows_def new_outer_def Matrix_of_def new_Matrix_def built_def
      heap_ext_def allocated_def refs_def Let_def)

lemma Matrix_map_built:
  "Matrix_map h this f = (h', M) \<Longrightarrow> built h (array_map f (contents h this)) h' M"
  unfolding Matrix_map_def by (rule new_array_built)

lemma Matrix_zeros_built:
  "Matrix_zeros h this = (h', M) \<Longrightarrow>
   built h (map (\<lambda>row. map (\<lambda>x. Num 0) row) (contents h this)) h' M"
proof -
  assume a: "Matrix_zeros h this = (h', M)"
  have "array_map (\<lambda>row i. array_map (\<lambda>x j. Num 0) row) (contents h this) =
        map (\<lambda>row. map (\<lambda>x. Num 0) row) (contents h this)"
    by (simp add: array_map_eq map_upt_nth [of "\<lambda>x. Num 0"] map_upt_nth [of "map (\<lambda>x. Num 0)"])
  moreover have "Matrix_map h this (\<lambda>row i. array_map (\<lambda>x j. Num 0) row) = (h', M)"
    using a by (simp add: Matrix_zeros_def Matrix_fill_def)
  ultimately show ?thesis
    using Matrix_map_built [of h this "\<lambda>row i. array_map (\<lambda>x j. Num 0) row" h' M] by simp
qed

lemma Matrix_clone_built:
  assumes "Matrix_clone h this = (h', M)"
  shows "built h (contents h this) h' M"
proof -
  obtain h1 where h1: "Matrix_fromArray h (mvalue (obj_at h this)) = (h1, M)"
    and h': "h' = setPrecision h1 M (precision (obj_at h1 this))"
    using assms by (auto simp: Matrix_clone_def split: prod.splits)
  have copy: "array_map (\<lambda>row i. array_map (\<lambda>col j. col) row) (rows_at h (mvalue (obj_at h this)))
        = contents h this"
    by (simp add: array_map_eq contents_def map_upt_nth [of "\<lambda>x. x"] map_upt_nth [of "\<lambda>x. x", simplified]
        map_nth)
  have b1: "built h (contents h this) h1 M"
    using h1 new_array_built [of h "contents h this" h1 M]
    by (simp add: Matrix_fromArray_def copy)
  show ?thesis
    using b1 unfolding h'
    by (auto simp: built_def setPrecision_def heap_ext_def allocated_def refs_def)
qed

section \<open>The product of the factors\<close>

lemma lower_upper_partial:
  assumes "\<forall>p<k. working M p p p \<noteq> 0"
  shows "(\<Sum>p<k. lower M i p * upper M p j) + (if k \<le> i \<and> k \<le> j then working M k i j else 0) = M i j"
  using assms
proof (induction k)
  case 0
  show ?case by simp
next
  case (Suc k)
  have nz: "working M k k k \<noteq> 0" using Suc.prems by simp
  have IH: "(\<Sum>p<k. lower M i p * upper M p j) + (if k \<le> i \<and> k \<le> j then working M k i j else 0) = M i j"
    using Suc by simp
  have step: "lower M i k * upper M k j + (if Suc k \<le> i \<and> Suc k \<le> j then working M (Suc k) i j else 0)
        = (if k \<le> i \<and> k \<le> j then working M k i j else 0)"
  proof -
    consider "i < k \<or> j < k" | "i = k" "k \<le> j" | "k < i" "j = k" | "k < i" "k < j"
      by linarith
    then show ?thesis
    proof cases
      case 1
      then show ?thesis by (auto simp: lower_def upper_def)
    next
      case 2
      then show ?thesis by (simp add: lower_def upper_def)
    next
      case 3
      then show ?thesis using nz by (simp add: lower_def upper_def)
    next
      case 4
      then show ?thesis using nz by (simp add: lower_def upper_def)
    qed
  qed
  have "(\<Sum>p<Suc k. lower M i p * upper M p j) + (if Suc k \<le> i \<and> Suc k \<le> j then working M (Suc k) i j else 0)
      = (\<Sum>p<k. lower M i p * upper M p j) + (lower M i k * upper M k j + (if Suc k \<le> i \<and> Suc k \<le> j then working M (Suc k) i j else 0))"
    by simp
  also have "\<dots> = M i j" unfolding step using IH .
  finally show ?case .
qed

lemma lower_upper_product:
  assumes "\<forall>p<n. working M p p p \<noteq> 0" and "i < n" and "j < n"
  shows "(\<Sum>p<n. lower M i p * upper M p j) = M i j"
  using lower_upper_partial [OF assms(1), of i j] assms(2,3) by simp

lemma holds_contents:
  assumes "holds h (refs h m) n f" and "length (refs h m) = n"
  shows "contents h m = map (\<lambda>i. map (\<lambda>j. Num (f i j)) [0..<n]) [0..<n]"
proof (rule nth_equalityI)
  show "length (contents h m) = length (map (\<lambda>i. map (\<lambda>j. Num (f i j)) [0..<n]) [0..<n])"
    using assms(2) by (simp add: contents_def rows_at_def refs_def)
next
  fix i assume "i < length (contents h m)"
  then have i: "i < n" using assms(2) by (simp add: contents_def rows_at_def refs_def)
  then show "contents h m ! i = map (\<lambda>i. map (\<lambda>j. Num (f i j)) [0..<n]) [0..<n] ! i"
    using assms by (simp add: contents_def rows_at_def refs_def holds_def)
qed

text \<open>The store after \<open>A = this.clone(); L = this.zeros(); U = this.zeros()\<close>.\<close>

lemma lu_initial:
  assumes al: "allocated h this"
    and sq: "contents h this = map (\<lambda>i. map (\<lambda>j. Num (M i j)) [0..<n]) [0..<n]"
    and c: "Matrix_clone h this = (h1, A)"
    and l: "Matrix_zeros h1 this = (h2, L)"
    and u: "Matrix_zeros h2 this = (h3, U)"
  shows "lu_state h3 A L U n M (\<lambda>i j. 0) (\<lambda>i j. 0)" and "heap_ext h h3"
    and "refs h3 A = [next_row h..<next_row h + n]"
    and "A = next_obj h"
proof -
  have len: "length (contents h this) = n" by (simp add: sq)
  have bA: "built h (contents h this) h1 A" by (rule Matrix_clone_built [OF c])
  have e1: "heap_ext h h1" using bA by (simp add: built_def)
  have c1: "contents h1 this = contents h this" and al1: "allocated h1 this"
    using heap_ext_allocated [OF e1 al] by simp_all
  have bL: "built h1 (map (\<lambda>row. map (\<lambda>x. Num 0) row) (contents h this)) h2 L"
    using Matrix_zeros_built [OF l] c1 by simp
  have e2: "heap_ext h1 h2" using bL by (simp add: built_def)
  have c2: "contents h2 this = contents h this" and al2: "allocated h2 this"
    using heap_ext_allocated [OF e2 al1] c1 by simp_all
  have bU: "built h2 (map (\<lambda>row. map (\<lambda>x. Num 0) row) (contents h this)) h3 U"
    using Matrix_zeros_built [OF u] c2 by simp
  have e3: "heap_ext h2 h3" using bU by (simp add: built_def)
  have e13: "heap_ext h1 h3" by (rule heap_ext_trans [OF e2 e3])
  show ext: "heap_ext h h3" by (rule heap_ext_trans [OF e1 e13])
  have nr1: "next_row h1 = next_row h + n" and nr2: "next_row h2 = next_row h + n + n"
    and nr3: "next_row h3 = next_row h + n + n + n"
    using bA bL bU len by (simp_all add: built_def)
  have rA1: "refs h1 A = [next_row h..<next_row h + n]" and alA: "allocated h1 A"
    using bA len by (auto simp: built_def)
  have rL2: "refs h2 L = [next_row h + n..<next_row h + n + n]" and alL: "allocated h2 L"
    using bL len nr1 by (auto simp: built_def)
  have rU: "refs h3 U = [next_row h + n + n..<next_row h + n + n + n]"
    using bU len nr2 by (auto simp: built_def)
  show rA: "refs h3 A = [next_row h..<next_row h + n]"
    using heap_ext_allocated(2) [OF e13 alA] rA1 by simp
  have rL: "refs h3 L = [next_row h + n..<next_row h + n + n]"
    using heap_ext_allocated(2) [OF e3 alL] rL2 by simp
  show "A = next_obj h" using bA by (simp add: built_def)
  have rowA: "row_at h3 (next_row h + i) = map (\<lambda>j. Num (M i j)) [0..<n]" if "i < n" for i
  proof -
    have "row_at h3 (next_row h + i) = row_at h1 (next_row h + i)"
      using e13 nr1 that by (simp add: heap_ext_def)
    also have "\<dots> = contents h this ! i" using bA len that by (simp add: built_def)
    finally show ?thesis using that by (simp add: sq)
  qed
  have zero: "map (\<lambda>row. map (\<lambda>x. Num 0) row) (contents h this) ! i = map (\<lambda>j. Num 0) [0..<n]"
    if "i < n" for i
    using that by (simp add: sq map_replicate_const)
  have rowL: "row_at h3 (next_row h + n + i) = map (\<lambda>j. Num 0) [0..<n]" if "i < n" for i
  proof -
    have "row_at h3 (next_row h + n + i) = row_at h2 (next_row h + n + i)"
      using e3 nr2 that by (simp add: heap_ext_def)
    also have "\<dots> = map (\<lambda>row. map (\<lambda>x. Num 0) row) (contents h this) ! i"
      using bL len that nr1 by (simp add: built_def)
    finally show ?thesis using zero [OF that] by simp
  qed
  have rowU: "row_at h3 (next_row h + n + n + i) = map (\<lambda>j. Num 0) [0..<n]" if "i < n" for i
  proof -
    have "row_at h3 (next_row h + n + n + i) = map (\<lambda>row. map (\<lambda>x. Num 0) row) (contents h this) ! i"
      using bU len that nr2 by (simp add: built_def)
    then show ?thesis using zero [OF that] by simp
  qed
  have dist: "distinct (refs h3 A @ refs h3 L @ refs h3 U)"
    unfolding rA rL rU by auto
  show "lu_state h3 A L U n M (\<lambda>i j. 0) (\<lambda>i j. 0)"
    unfolding lu_state_def holds_def
    using dist rowA rowL rowU by (simp add: rA rL rU)
qed

section \<open>What the loops of \<open>lu\<close> write\<close>

lemma rows_only_refl [simp]: "rows_only S h h"
  by (simp add: rows_only_def)

lemma rows_only_trans: "rows_only S h1 h2 \<Longrightarrow> rows_only S h2 h3 \<Longrightarrow> rows_only S h1 h3"
  by (simp add: rows_only_def)

lemma rows_only_refs: "rows_only S h h' \<Longrightarrow> refs h' m = refs h m"
  by (simp add: rows_only_def refs_def)

lemma cell_set_rows_only:
  assumes "cell_set h m i j v = Inr h'" and "set (refs h m) \<subseteq> S"
  shows "rows_only S h h'"
proof -
  obtain r where r: "rowref h m i = Some r"
    and h': "h' = h\<lparr>row_at := (row_at h)(r := put_at (row_at h r) j v)\<rparr>"
    using assms(1) by (auto simp: cell_set_def split: option.splits)
  have "r \<in> set (refs h m)"
    using r by (auto simp: rowref_def refs_def Let_def split: if_splits)
  then have "r \<in> S" using assms(2) by blast
  then show ?thesis unfolding h' by (auto simp: rows_only_def)
qed

lemma heap_ext_rows_only:
  assumes "heap_ext h h1" and "rows_only S h1 h2" and "\<forall>a\<in>S. next_row h \<le> a"
  shows "heap_ext h h2"
proof -
  have same: "outer_at h2 = outer_at h1" "obj_at h2 = obj_at h1" "next_row h2 = next_row h1"
    "next_outer h2 = next_outer h1" "next_obj h2 = next_obj h1"
    using assms(2) by (simp_all add: rows_only_def)
  have rows: "row_at h2 a = row_at h1 a" if "a < next_row h" for a
  proof -
    have "a \<notin> S" using assms(3) that by auto
    then show ?thesis using assms(2) by (simp add: rows_only_def)
  qed
  show ?thesis
    using assms(1) unfolding heap_ext_def same by (simp add: rows)
qed

lemma lu_j_frame:
  "set (refs h A) \<subseteq> S \<Longrightarrow> rows_only S h (snd (lu_j h A L k i n j))"
proof (induction "n - j" arbitrary: j h)
  case 0
  then show ?case by simp
next
  case (Suc d)
  show ?case
  proof (cases "\<exists>aij lik akj h'. cell_get h A i j = Inr aij \<and> cell_get h L i k = Inr lik \<and>
            cell_get h A k j = Inr akj \<and> cell_set h A i j (js_sub aij (js_mul lik akj)) = Inr h'")
    case True
    then obtain aij lik akj h' where g: "cell_get h A i j = Inr aij" "cell_get h L i k = Inr lik"
      "cell_get h A k j = Inr akj" and s: "cell_set h A i j (js_sub aij (js_mul lik akj)) = Inr h'"
      by blast
    have r1: "rows_only S h h'" by (rule cell_set_rows_only [OF s Suc.prems])
    have "rows_only S h' (snd (lu_j h' A L k i n (Suc j)))"
      by (rule Suc.hyps(1)) (use Suc.hyps(2) Suc.prems rows_only_refs [OF r1] in auto)
    then have "rows_only S h (snd (lu_j h' A L k i n (Suc j)))"
      using r1 rows_only_trans by blast
    moreover have "lu_j h A L k i n j = lu_j h' A L k i n (Suc j)"
      using Suc.hyps(2) g s by (subst lu_j.simps) simp
    ultimately show ?thesis by simp
  next
    case False
    then have "snd (lu_j h A L k i n j) = h"
      by (subst lu_j.simps) (auto split: sum.splits)
    then show ?thesis by simp
  qed
qed

lemma lu_i_frame:
  "set (refs h A) \<subseteq> S \<Longrightarrow> set (refs h L) \<subseteq> S \<Longrightarrow> rows_only S h (snd (lu_i h A L k n i))"
proof (induction "n - i" arbitrary: i h)
  case 0
  then show ?case by simp
next
  case (Suc d)
  show ?case
  proof (cases "\<exists>aik akk h1 h2. cell_get h A i k = Inr aik \<and> cell_get h A k k = Inr akk \<and>
            cell_set h L i k (js_div aik akk) = Inr h1 \<and> lu_j h1 A L k i n (Suc k) = (None, h2)")
    case True
    then obtain aik akk h1 h2 where g: "cell_get h A i k = Inr aik" "cell_get h A k k = Inr akk"
      and s: "cell_set h L i k (js_div aik akk) = Inr h1"
      and j: "lu_j h1 A L k i n (Suc k) = (None, h2)"
      by blast
    have r1: "rows_only S h h1" by (rule cell_set_rows_only [OF s Suc.prems(2)])
    have "rows_only S h1 (snd (lu_j h1 A L k i n (Suc k)))"
      by (rule lu_j_frame) (use Suc.prems rows_only_refs [OF r1] in simp)
    then have r2: "rows_only S h h2" using r1 j rows_only_trans by fastforce
    have "rows_only S h2 (snd (lu_i h2 A L k n (Suc i)))"
      by (rule Suc.hyps(1)) (use Suc.hyps(2) Suc.prems rows_only_refs [OF r2] in auto)
    then have "rows_only S h (snd (lu_i h2 A L k n (Suc i)))"
      using r2 rows_only_trans by blast
    moreover have "lu_i h A L k n i = lu_i h2 A L k n (Suc i)"
      using Suc.hyps(2) g s j by (subst lu_i.simps) simp
    ultimately show ?thesis by simp
  next
    case False
    have "rows_only S h (snd (lu_i h A L k n i))"
    proof (cases "\<exists>aik akk h1. cell_get h A i k = Inr aik \<and> cell_get h A k k = Inr akk \<and>
            cell_set h L i k (js_div aik akk) = Inr h1")
      case True
      then obtain aik akk h1 where g: "cell_get h A i k = Inr aik" "cell_get h A k k = Inr akk"
        and s: "cell_set h L i k (js_div aik akk) = Inr h1"
        by blast
      have r1: "rows_only S h h1" by (rule cell_set_rows_only [OF s Suc.prems(2)])
      have rj: "rows_only S h1 (snd (lu_j h1 A L k i n (Suc k)))"
        by (rule lu_j_frame) (use Suc.prems rows_only_refs [OF r1] in simp)
      obtain e h2 where j: "lu_j h1 A L k i n (Suc k) = (Some e, h2)"
        using False g s by (cases "lu_j h1 A L k i n (Suc k)") (auto split: option.splits)
      have "snd (lu_i h A L k n i) = h2"
        using Suc.hyps(2) g s j by (subst lu_i.simps) simp
      then show ?thesis using r1 rj j rows_only_trans by fastforce
    next
      case F2: False
      then have "snd (lu_i h A L k n i) = h"
        by (subst lu_i.simps) (auto split: sum.splits)
      then show ?thesis by simp
    qed
    then show ?thesis .
  qed
qed

lemma lu_l_frame:
  "set (refs h U) \<subseteq> S \<Longrightarrow> rows_only S h (snd (lu_l h A U k n l))"
proof (induction "n - l" arbitrary: l h)
  case 0
  then show ?case by simp
next
  case (Suc d)
  show ?case
  proof (cases "\<exists>akl h'. cell_get h A k l = Inr akl \<and> cell_set h U k l akl = Inr h'")
    case True
    then obtain akl h' where g: "cell_get h A k l = Inr akl" and s: "cell_set h U k l akl = Inr h'"
      by blast
    have r1: "rows_only S h h'" by (rule cell_set_rows_only [OF s Suc.prems])
    have "rows_only S h' (snd (lu_l h' A U k n (Suc l)))"
      by (rule Suc.hyps(1)) (use Suc.hyps(2) Suc.prems rows_only_refs [OF r1] in auto)
    then have "rows_only S h (snd (lu_l h' A U k n (Suc l)))"
      using r1 rows_only_trans by blast
    moreover have "lu_l h A U k n l = lu_l h' A U k n (Suc l)"
      using Suc.hyps(2) g s by (subst lu_l.simps) simp
    ultimately show ?thesis by simp
  next
    case False
    then have "snd (lu_l h A U k n l) = h"
      by (subst lu_l.simps) (auto split: sum.splits)
    then show ?thesis by simp
  qed
qed

lemma lu_k_frame:
  assumes "set (refs h A) \<subseteq> S" and "set (refs h L) \<subseteq> S" and "set (refs h U) \<subseteq> S"
  shows "rows_only S h (snd (lu_k h A L U n k))"
  using assms
proof (induction "n - k" arbitrary: k h)
  case 0
  then show ?case by simp
next
  case (Suc d)
  show ?case
  proof (cases "\<exists>akk h1. cell_get h A k k = Inr akk \<and> \<not> js_abs_lt akk tol \<and>
                   cell_set h L k k (Num 1) = Inr h1")
    case True
    then obtain akk h1 where g: "cell_get h A k k = Inr akk" "\<not> js_abs_lt akk tol"
      and s: "cell_set h L k k (Num 1) = Inr h1"
      by blast
    have r1: "rows_only S h h1" by (rule cell_set_rows_only [OF s Suc.prems(2)])
    obtain e2 h2 where i: "lu_i h1 A L k n (Suc k) = (e2, h2)" by (cases "lu_i h1 A L k n (Suc k)")
    have "rows_only S h1 (snd (lu_i h1 A L k n (Suc k)))"
      by (rule lu_i_frame) (use Suc.prems rows_only_refs [OF r1] in simp_all)
    then have r2: "rows_only S h h2" using r1 i rows_only_trans by fastforce
    obtain e3 h3 where l: "lu_l h2 A U k n k = (e3, h3)" by (cases "lu_l h2 A U k n k")
    have "rows_only S h2 (snd (lu_l h2 A U k n k))"
      by (rule lu_l_frame) (use Suc.prems rows_only_refs [OF r2] in simp_all)
    then have r3: "rows_only S h h3" using r2 l rows_only_trans by fastforce
    have "rows_only S h3 (snd (lu_k h3 A L U n (Suc k)))"
      by (rule Suc.hyps(1)) (use Suc.hyps(2) Suc.prems rows_only_refs [OF r3] in auto)
    then have r4: "rows_only S h (snd (lu_k h3 A L U n (Suc k)))"
      using r3 rows_only_trans by blast
    have "snd (lu_k h A L U n k) =
          (case e2 of Some e \<Rightarrow> h2 | None \<Rightarrow> (case e3 of Some e \<Rightarrow> h3 | None \<Rightarrow> snd (lu_k h3 A L U n (Suc k))))"
      using Suc.hyps(2) g s i l by (subst lu_k.simps) (simp split: option.splits)
    then show ?thesis using r2 r3 r4 by (simp split: option.splits)
  next
    case False
    then have "snd (lu_k h A L U n k) = h"
      by (subst lu_k.simps) (auto split: sum.splits)
    then show ?thesis by simp
  qed
qed

section \<open>LU decomposition: the results\<close>

lemma grid_cong: "(\<And>i j. i < n \<Longrightarrow> j < n \<Longrightarrow> f i j = g i j) \<Longrightarrow> grid n f = grid n g"
  by (simp add: grid_def)

lemma grid_of_lists:
  assumes "length Am = n" and "\<forall>r\<in>set Am. length r = n"
  shows "map (map Num) Am = grid n (\<lambda>i j. Am ! i ! j)"
  unfolding grid_def
proof (rule nth_equalityI)
  show "length (map (map Num) Am) = length (map (\<lambda>i. map (\<lambda>j. Num (Am ! i ! j)) [0..<n]) [0..<n])"
    using assms(1) by simp
next
  fix i assume "i < length (map (map Num) Am)"
  then have i: "i < n" using assms(1) by simp
  then have "length (Am ! i) = n" using assms by simp
  then have "map Num (Am ! i) = map (\<lambda>j. Num (Am ! i ! j)) [0..<n]"
    using map_upt_nth [of Num "Am ! i"] by simp
  then show "map (map Num) Am ! i = map (\<lambda>i. map (\<lambda>j. Num (Am ! i ! j)) [0..<n]) [0..<n] ! i"
    using i assms(1) by simp
qed

lemma lu_alloc:
  assumes al: "allocated h this"
    and c: "Matrix_clone h this = (h1, A)"
    and l: "Matrix_zeros h1 this = (h2, L)"
    and u: "Matrix_zeros h2 this = (h3, U)"
    and n: "n = length (contents h this)"
  shows "heap_ext h h3" and "A = next_obj h"
    and "refs h3 A = [next_row h..<next_row h + n]"
    and "refs h3 L = [next_row h + n..<next_row h + n + n]"
    and "refs h3 U = [next_row h + n + n..<next_row h + n + n + n]"
    and "allocated h3 A" and "allocated h3 L" and "allocated h3 U"
proof -
  have bA: "built h (contents h this) h1 A" by (rule Matrix_clone_built [OF c])
  have e1: "heap_ext h h1" using bA by (simp add: built_def)
  have c1: "contents h1 this = contents h this" and al1: "allocated h1 this"
    using heap_ext_allocated [OF e1 al] by simp_all
  have bL: "built h1 (map (\<lambda>row. map (\<lambda>x. Num 0) row) (contents h this)) h2 L"
    using Matrix_zeros_built [OF l] c1 by simp
  have e2: "heap_ext h1 h2" using bL by (simp add: built_def)
  have c2: "contents h2 this = contents h this" and al2: "allocated h2 this"
    using heap_ext_allocated [OF e2 al1] c1 by simp_all
  have bU: "built h2 (map (\<lambda>row. map (\<lambda>x. Num 0) row) (contents h this)) h3 U"
    using Matrix_zeros_built [OF u] c2 by simp
  have e3: "heap_ext h2 h3" using bU by (simp add: built_def)
  have e13: "heap_ext h1 h3" by (rule heap_ext_trans [OF e2 e3])
  show "heap_ext h h3" by (rule heap_ext_trans [OF e1 e13])
  have nr1: "next_row h1 = next_row h + n" and nr2: "next_row h2 = next_row h + n + n"
    using bA bL n by (simp_all add: built_def)
  have rA1: "refs h1 A = [next_row h..<next_row h + n]" and alA: "allocated h1 A"
    using bA n by (auto simp: built_def)
  have rL2: "refs h2 L = [next_row h + n..<next_row h + n + n]" and alL: "allocated h2 L"
    using bL n nr1 by (auto simp: built_def)
  show "refs h3 U = [next_row h + n + n..<next_row h + n + n + n]" and "allocated h3 U"
    using bU n nr2 by (auto simp: built_def)
  show "refs h3 A = [next_row h..<next_row h + n]" and "allocated h3 A"
    using heap_ext_allocated(1,2) [OF e13 alA] rA1 by simp_all
  show "refs h3 L = [next_row h + n..<next_row h + n + n]" and "allocated h3 L"
    using heap_ext_allocated(1,2) [OF e3 alL] rL2 by simp_all
  show "A = next_obj h" using bA by (simp add: built_def)
qed

lemma rows_only_allocated:
  "rows_only S h h' \<Longrightarrow> allocated h m \<Longrightarrow> allocated h' m"
  by (simp add: rows_only_def allocated_def)

text \<open>The whole of \<open>lu\<close>, for any matrix: what it leaves of the store it was given.\<close>

lemma Matrix_lu_frame:
  assumes al: "allocated h this" and n: "n = length (contents h this)"
  shows "heap_ext h (snd (Matrix_lu h this))"
    and "refs (snd (Matrix_lu h this)) (next_obj h) = [next_row h..<next_row h + n]"
proof -
  obtain h1 A where c: "Matrix_clone h this = (h1, A)" by (cases "Matrix_clone h this")
  obtain h2 L where l: "Matrix_zeros h1 this = (h2, L)" by (cases "Matrix_zeros h1 this")
  obtain h3 U where u: "Matrix_zeros h2 this = (h3, U)" by (cases "Matrix_zeros h2 this")
  note a = lu_alloc [OF al c l u n]
  let ?S = "{a. next_row h \<le> a}"
  have "rows_only ?S h3 (snd (lu_k h3 A L U n 0))"
    by (rule lu_k_frame) (auto simp: a(3,4,5))
  moreover have "snd (Matrix_lu h this) = snd (lu_k h3 A L U n 0)"
    using c l u n by (simp add: Matrix_lu_def getRows_def split: prod.splits option.splits)
  ultimately have r: "rows_only ?S h3 (snd (Matrix_lu h this))" by simp
  show "heap_ext h (snd (Matrix_lu h this))"
    by (rule heap_ext_rows_only [OF a(1) r]) simp
  show "refs (snd (Matrix_lu h this)) (next_obj h) = [next_row h..<next_row h + n]"
    using rows_only_refs [OF r, of A] a(2,3) by simp
qed

lemma Matrix_lu_success:
  assumes al: "allocated h this" and sq: "contents h this = grid n M"
    and piv: "\<forall>k<n. \<not> \<bar>working M k k k\<bar> < tol"
  shows "\<exists>L U h'. Matrix_lu h this = (Inr (L, U), h') \<and>
           contents h' L = grid n (lower M) \<and> contents h' U = grid n (upper M) \<and>
           allocated h' L \<and> allocated h' U"
proof -
  obtain h1 A where c: "Matrix_clone h this = (h1, A)" by (cases "Matrix_clone h this")
  obtain h2 L where l: "Matrix_zeros h1 this = (h2, L)" by (cases "Matrix_zeros h1 this")
  obtain h3 U where u: "Matrix_zeros h2 this = (h3, U)" by (cases "Matrix_zeros h2 this")
  have n: "n = length (contents h this)" by (simp add: sq grid_def)
  note a = lu_alloc [OF al c l u n]
  have st0: "lu_state h3 A L U n (working M 0) (lower_upto M 0) (upper_upto M 0)"
    using lu_initial(1) [OF al sq [unfolded grid_def] c l u]
    by (simp add: lower_upto_def upper_upto_def)
  obtain h' where run: "lu_k h3 A L U n 0 = (None, h')"
    and st: "lu_state h' A L U n (working M n) (lower_upto M n) (upper_upto M n)"
    using lu_k_success [OF st0 _ ] piv by auto
  have res: "Matrix_lu h this = (Inr (L, U), h')"
    using c l u n run by (simp add: Matrix_lu_def getRows_def)
  have "contents h' L = grid n (lower_upto M n)" "contents h' U = grid n (upper_upto M n)"
    using st holds_contents by (simp_all add: lu_state_def grid_def)
  moreover have "grid n (lower_upto M n) = grid n (lower M)"
    by (rule grid_cong) (simp add: lower_upto_def)
  moreover have "grid n (upper_upto M n) = grid n (upper M)"
    by (rule grid_cong) (simp add: upper_upto_def)
  moreover have "rows_only {a. next_row h \<le> a} h3 (snd (lu_k h3 A L U n 0))"
    by (rule lu_k_frame) (auto simp: a(3,4,5))
  then have "allocated h' L" "allocated h' U"
    using a(7,8) run rows_only_allocated by fastforce+
  ultimately show ?thesis using res by simp
qed

lemma Matrix_lu_failure:
  assumes al: "allocated h this" and sq: "contents h this = grid n M"
    and k0: "k0 < n" and small: "\<bar>working M k0 k0 k0\<bar> < tol"
    and before: "\<forall>k<k0. \<not> \<bar>working M k k k\<bar> < tol"
  shows "\<exists>h'. Matrix_lu h this = (Inl (Error ''Cannot proceed without a row exchange''), h') \<and>
           contents h' (next_obj h) = grid n (working M k0)"
proof -
  obtain h1 A where c: "Matrix_clone h this = (h1, A)" by (cases "Matrix_clone h this")
  obtain h2 L where l: "Matrix_zeros h1 this = (h2, L)" by (cases "Matrix_zeros h1 this")
  obtain h3 U where u: "Matrix_zeros h2 this = (h3, U)" by (cases "Matrix_zeros h2 this")
  have n: "n = length (contents h this)" by (simp add: sq grid_def)
  note a = lu_alloc [OF al c l u n]
  have st0: "lu_state h3 A L U n (working M 0) (lower_upto M 0) (upper_upto M 0)"
    using lu_initial(1) [OF al sq [unfolded grid_def] c l u]
    by (simp add: lower_upto_def upper_upto_def)
  obtain h' where run: "lu_k h3 A L U n 0 = (Some (Error ''Cannot proceed without a row exchange''), h')"
    and st: "lu_state h' A L U n (working M k0) (lower_upto M k0) (upper_upto M k0)"
    using lu_k_failure [OF st0 _ k0 small] before by auto
  have res: "Matrix_lu h this = (Inl (Error ''Cannot proceed without a row exchange''), h')"
    using c l u n run by (simp add: Matrix_lu_def getRows_def)
  have "contents h' A = grid n (working M k0)"
    using st holds_contents by (simp add: lu_state_def grid_def)
  then show ?thesis using res a(2) by simp
qed

lemma matrix_literal_allocated:
  "matrix_literal h rs = (h', m) \<Longrightarrow> allocated h' m \<and> contents h' m = rs"
proof -
  assume a: "matrix_literal h rs = (h', m)"
  have b: "built h rs h' m"
    using a new_array_built [of h rs h' m] by (simp add: matrix_literal_def)
  have "contents h' m = map (row_at h') (refs h' m)"
    by (simp add: contents_def rows_at_def refs_def)
  also have "\<dots> = map (\<lambda>a. row_at h' a) [next_row h..<next_row h + length rs]"
    using b by (auto simp: built_def)
  also have "\<dots> = rs"
    using b by (auto simp: built_def intro!: nth_equalityI)
  finally show ?thesis using b by (auto simp: built_def)
qed

lemma all_less_two: "(\<forall>k<2. P k) \<longleftrightarrow> P 0 \<and> P (Suc 0)"
  by (auto simp: less_2_cases_iff)

text \<open>
  C1. For a Matrix in the store whose contents are the square matrix \<open>Am\<close> of numbers,
  such that no working pivot of the elimination has absolute value below \<open>1e-6\<close>,
  \<open>lu\<close> returns a pair of matrices \<open>L\<close> and \<open>U\<close> of the same size: \<open>L\<close> has 1 on the
  diagonal and 0 above it, \<open>U\<close> has 0 below the diagonal, and the product of \<open>L\<close> and
  \<open>U\<close> is \<open>Am\<close>, element by element, in exact arithmetic.
\<close>

theorem lu_decomposition:
  assumes "allocated h this" and "contents h this = map (map Num) Am"
    and "length Am = n" and "\<forall>r\<in>set Am. length r = n"
    and "\<forall>k<n. \<not> \<bar>working (\<lambda>i j. Am ! i ! j) k k k\<bar> < tol"
  shows "\<exists>L U h' Lm Um. Matrix_lu h this = (Inr (L, U), h') \<and>
           contents h' L = map (map Num) Lm \<and> contents h' U = map (map Num) Um \<and>
           length Lm = n \<and> (\<forall>r\<in>set Lm. length r = n) \<and>
           length Um = n \<and> (\<forall>r\<in>set Um. length r = n) \<and>
           (\<forall>i<n. Lm ! i ! i = 1 \<and>
              (\<forall>j<n. (i < j \<longrightarrow> Lm ! i ! j = 0) \<and> (j < i \<longrightarrow> Um ! i ! j = 0) \<and>
                 (\<Sum>p<n. Lm ! i ! p * Um ! p ! j) = Am ! i ! j))"
proof -
  let ?M = "\<lambda>i j. Am ! i ! j"
  let ?Lm = "map (\<lambda>i. map (\<lambda>j. lower ?M i j) [0..<n]) [0..<n]"
  let ?Um = "map (\<lambda>i. map (\<lambda>j. upper ?M i j) [0..<n]) [0..<n]"
  have sq: "contents h this = grid n ?M"
    using assms(2) grid_of_lists [OF assms(3,4)] by simp
  obtain L U h' where res: "Matrix_lu h this = (Inr (L, U), h')"
    and cL: "contents h' L = grid n (lower ?M)" and cU: "contents h' U = grid n (upper ?M)"
    using Matrix_lu_success [OF assms(1) sq assms(5)] by blast
  have nz: "\<forall>p<n. working ?M p p p \<noteq> 0"
    using assms(5) by (auto simp: tol_def)
  have prod: "(\<Sum>p<n. ?Lm ! i ! p * ?Um ! p ! j) = Am ! i ! j" if "i < n" "j < n" for i j
  proof -
    have "(\<Sum>p<n. ?Lm ! i ! p * ?Um ! p ! j) = (\<Sum>p<n. lower ?M i p * upper ?M p j)"
      using that by (intro sum.cong) simp_all
    then show ?thesis using lower_upper_product [OF nz that] by simp
  qed
  have "contents h' L = map (map Num) ?Lm" "contents h' U = map (map Num) ?Um"
    by (simp_all add: cL cU grid_def comp_def)
  moreover have "\<forall>i<n. ?Lm ! i ! i = 1 \<and>
              (\<forall>j<n. (i < j \<longrightarrow> ?Lm ! i ! j = 0) \<and> (j < i \<longrightarrow> ?Um ! i ! j = 0) \<and>
                 (\<Sum>p<n. ?Lm ! i ! p * ?Um ! p ! j) = Am ! i ! j)"
    using prod by (simp add: lower_def upper_def)
  ultimately show ?thesis
    using res by (intro exI [of _ L] exI [of _ U] exI [of _ h'] exI [of _ ?Lm] exI [of _ ?Um]) simp
qed

theorem lu_decomposition_witness:
  "\<exists>L U h' Lm Um.
     Matrix_lu (fst (matrix_literal empty_heap [[Num 5, Num 1], [Num 3, Num (-4)]]))
               (snd (matrix_literal empty_heap [[Num 5, Num 1], [Num 3, Num (-4)]]))
       = (Inr (L, U), h') \<and>
     contents h' L = map (map Num) Lm \<and> contents h' U = map (map Num) Um \<and>
     length Lm = 2 \<and> (\<forall>r\<in>set Lm. length r = 2) \<and>
     length Um = 2 \<and> (\<forall>r\<in>set Um. length r = 2) \<and>
     (\<forall>i<2. Lm ! i ! i = 1 \<and>
        (\<forall>j<2. (i < j \<longrightarrow> Lm ! i ! j = 0) \<and> (j < i \<longrightarrow> Um ! i ! j = 0) \<and>
           (\<Sum>p<2. Lm ! i ! p * Um ! p ! j) = [[5, 1], [3, -4]] ! i ! j))"
proof (rule lu_decomposition)
  obtain h m where hm: "matrix_literal empty_heap [[Num 5, Num 1], [Num 3, Num (-4)]] = (h, m)"
    by (cases "matrix_literal empty_heap [[Num 5, Num 1], [Num 3, Num (-4)]]")
  show "allocated (fst (matrix_literal empty_heap [[Num 5, Num 1], [Num 3, Num (-4)]]))
               (snd (matrix_literal empty_heap [[Num 5, Num 1], [Num 3, Num (-4)]]))"
    using matrix_literal_allocated [OF hm] hm by simp
  show "contents (fst (matrix_literal empty_heap [[Num 5, Num 1], [Num 3, Num (-4)]]))
               (snd (matrix_literal empty_heap [[Num 5, Num 1], [Num 3, Num (-4)]]))
        = map (map Num) [[5, 1], [3, -4]]"
    using matrix_literal_allocated [OF hm] hm by simp
  show "length [[5, 1], [3, -4 :: real]] = 2" by simp
  show "\<forall>r\<in>set [[5, 1], [3, -4 :: real]]. length r = 2" by simp
  show "\<forall>k<2. \<not> \<bar>working (\<lambda>i j. [[5, 1], [3, -4]] ! i ! j) k k k\<bar> < tol"
    by (simp add: all_less_two tol_def)
qed

text \<open>
  C4. For a Matrix whose contents are a square matrix of numbers, \<open>lu\<close> throws
  \<open>Cannot proceed without a row exchange\<close> exactly when some working pivot of the
  elimination has absolute value below \<open>1e-6\<close>. Whether it returns or throws, the
  array of rows of its working copy (the first Matrix it allocates) holds the rows in
  the order in which they were copied: no row is exchanged.
\<close>

theorem lu_row_exchange_error:
  assumes "allocated h this" and "contents h this = map (map Num) Am"
    and "length Am = n" and "\<forall>r\<in>set Am. length r = n"
  shows "((\<exists>h'. Matrix_lu h this = (Inl (Error ''Cannot proceed without a row exchange''), h'))
           \<longleftrightarrow> (\<exists>k<n. \<bar>working (\<lambda>i j. Am ! i ! j) k k k\<bar> < tol)) \<and>
         refs (snd (Matrix_lu h this)) (next_obj h) = [next_row h..<next_row h + n]"
proof -
  let ?M = "\<lambda>i j. Am ! i ! j"
  have sq: "contents h this = grid n ?M"
    using assms(2) grid_of_lists [OF assms(3,4)] by simp
  have n: "n = length (contents h this)" by (simp add: sq grid_def)
  have "\<exists>h'. Matrix_lu h this = (Inl (Error ''Cannot proceed without a row exchange''), h')"
    if "\<exists>k<n. \<bar>working ?M k k k\<bar> < tol"
  proof -
    define k0 where "k0 = (LEAST k. k < n \<and> \<bar>working ?M k k k\<bar> < tol)"
    have k0: "k0 < n \<and> \<bar>working ?M k0 k0 k0\<bar> < tol"
      unfolding k0_def by (rule LeastI_ex) (use that in blast)
    have least: "\<forall>k<k0. \<not> (k < n \<and> \<bar>working ?M k k k\<bar> < tol)"
      unfolding k0_def using not_less_Least by blast
    have "\<forall>k<k0. \<not> \<bar>working ?M k k k\<bar> < tol" using least k0 by auto
    then show ?thesis using Matrix_lu_failure [OF assms(1) sq] k0 by blast
  qed
  moreover have "\<not> (\<exists>h'. Matrix_lu h this = (Inl (Error ''Cannot proceed without a row exchange''), h'))"
    if "\<not> (\<exists>k<n. \<bar>working ?M k k k\<bar> < tol)"
    using Matrix_lu_success [OF assms(1) sq] that by auto
  ultimately show ?thesis
    using Matrix_lu_frame(2) [OF assms(1) n] by blast
qed

theorem lu_row_exchange_error_witness:
  "((\<exists>h'. Matrix_lu (fst (matrix_literal empty_heap [[Num 0, Num 1], [Num 1, Num 0]]))
               (snd (matrix_literal empty_heap [[Num 0, Num 1], [Num 1, Num 0]]))
        = (Inl (Error ''Cannot proceed without a row exchange''), h'))
     \<longleftrightarrow> (\<exists>k<2. \<bar>working (\<lambda>i j. [[0, 1], [1, 0]] ! i ! j) k k k\<bar> < tol)) \<and>
   (\<exists>k<2. \<bar>working (\<lambda>i j. [[0, 1], [1, 0]] ! i ! j) k k k\<bar> < tol) \<and>
   refs (snd (Matrix_lu (fst (matrix_literal empty_heap [[Num 0, Num 1], [Num 1, Num 0]]))
               (snd (matrix_literal empty_heap [[Num 0, Num 1], [Num 1, Num 0]]))))
        (next_obj (fst (matrix_literal empty_heap [[Num 0, Num 1], [Num 1, Num 0]])))
     = [next_row (fst (matrix_literal empty_heap [[Num 0, Num 1], [Num 1, Num 0]]))..<
        next_row (fst (matrix_literal empty_heap [[Num 0, Num 1], [Num 1, Num 0]])) + 2]"
proof -
  obtain h m where hm: "matrix_literal empty_heap [[Num 0, Num 1], [Num 1, Num 0]] = (h, m)"
    by (cases "matrix_literal empty_heap [[Num 0, Num 1], [Num 1, Num 0]]")
  have al: "allocated h m" and c: "contents h m = map (map Num) [[0, 1], [1, 0]]"
    using matrix_literal_allocated [OF hm] by simp_all
  have small: "\<exists>k<2. \<bar>working (\<lambda>i j. [[0, 1], [1, 0]] ! i ! j) k k k\<bar> < tol"
    by (rule exI [of _ 0]) (simp add: tol_def)
  show ?thesis
    unfolding hm fst_conv snd_conv
    using lu_row_exchange_error [OF al c, of 2] small by simp
qed

section \<open>\<open>Matrix.of\<close>\<close>

text \<open>
  C9. Whatever \<open>Matrix.of\<close> is given (and whatever its receiver), giving its result
  to \<open>Matrix.of\<close> again returns that same instance and leaves the store as it is; and
  \<open>Matrix.of\<close> of a Matrix instance returns the instance itself, without a new object.
\<close>

theorem Matrix_of_idempotent:
  "Matrix_of (fst (Matrix_of h t x)) t' (Instance (snd (Matrix_of h t x))) = Matrix_of h t x \<and>
   Matrix_of h t (Instance m) = (h, m)"
  by (simp add: Matrix_of_def)

section \<open>Determinant\<close>

lemma cell_get_contents:
  "cell_get h m i j =
     (if i < length (contents h m) then Inr (get_at (contents h m ! i) j) else Inl TypeError)"
  by (simp add: cell_get_def rowref_def contents_def rows_at_def Let_def)


lemma getCols_grid: "0 < n \<Longrightarrow> getCols (grid n f) = Inr n"
  by (simp add: getCols_def grid_def upt_conv_Cons split: list.splits)

text \<open>
  C10. On a matrix of two rows of two cells \<open>determinant\<close> returns \<open>a * d - b * c\<close>
  and leaves the store untouched (\<open>lu\<close> is not called, so no pivot error can arise,
  singular matrix or not). On a square matrix of numbers of size 3 or more whose
  elimination meets a working pivot of absolute value below \<open>1e-6\<close>, \<open>determinant\<close>
  ends with the error \<open>Cannot proceed without a row exchange\<close> of \<open>lu\<close>.
\<close>

theorem determinant_two_by_two_and_larger:
  "(contents h this = [[a, b], [c, d]] \<longrightarrow>
      Matrix_determinant h this = (Inr (js_sub (js_mul a d) (js_mul b c)), h)) \<and>
   (allocated h that \<and> contents h that = map (map Num) Am \<and> length Am = n \<and>
    (\<forall>r\<in>set Am. length r = n) \<and> 3 \<le> n \<and>
    (\<exists>k<n. \<bar>working (\<lambda>i j. Am ! i ! j) k k k\<bar> < tol) \<longrightarrow>
      fst (Matrix_determinant h that) = Inl (Error ''Cannot proceed without a row exchange''))"
proof (intro conjI impI)
  assume c: "contents h this = [[a, b], [c, d]]"
  have "cell_get h this 0 0 = Inr a" "cell_get h this 0 1 = Inr b"
    "cell_get h this 1 0 = Inr c" "cell_get h this 1 1 = Inr d"
    by (simp_all add: cell_get_contents c get_at_def)
  then show "Matrix_determinant h this = (Inr (js_sub (js_mul a d) (js_mul b c)), h)"
    by (simp add: Matrix_determinant_def isSquare_def getCols_def getRows_def c)
next
  assume a: "allocated h that \<and> contents h that = map (map Num) Am \<and> length Am = n \<and>
    (\<forall>r\<in>set Am. length r = n) \<and> 3 \<le> n \<and>
    (\<exists>k<n. \<bar>working (\<lambda>i j. Am ! i ! j) k k k\<bar> < tol)"
  let ?M = "\<lambda>i j. Am ! i ! j"
  have sq: "contents h that = grid n ?M"
    using a grid_of_lists [of Am n] by simp
  define k0 where "k0 = (LEAST k. k < n \<and> \<bar>working ?M k k k\<bar> < tol)"
  have k0: "k0 < n \<and> \<bar>working ?M k0 k0 k0\<bar> < tol"
    unfolding k0_def by (rule LeastI_ex) (use a in blast)
  have least: "\<forall>k<k0. \<not> (k < n \<and> \<bar>working ?M k k k\<bar> < tol)"
    unfolding k0_def using not_less_Least by blast
  then have before: "\<forall>k<k0. \<not> \<bar>working ?M k k k\<bar> < tol" using k0 by auto
  obtain h' where lu: "Matrix_lu h that = (Inl (Error ''Cannot proceed without a row exchange''), h')"
    using Matrix_lu_failure [OF _ sq _ _ before] a k0 by blast
  have npos: "0 < n" using a by simp
  have cols: "getCols (contents h that) = Inr n"
    using getCols_grid [OF npos, of ?M] by (simp add: sq)
  have rows: "getRows (contents h that) = n"
    by (simp add: sq getRows_def grid_def)
  show "fst (Matrix_determinant h that) = Inl (Error ''Cannot proceed without a row exchange'')"
  proof -
    have "n \<noteq> 2" using a by simp
    then show ?thesis
      using lu by (simp add: Matrix_determinant_def isSquare_def cols rows)
  qed
qed

theorem determinant_two_by_two_and_larger_witness:
  "Matrix_determinant (fst (matrix_literal empty_heap [[Num 1, Num 2], [Num 2, Num 4]]))
                      (snd (matrix_literal empty_heap [[Num 1, Num 2], [Num 2, Num 4]]))
     = (Inr (Num 0), fst (matrix_literal empty_heap [[Num 1, Num 2], [Num 2, Num 4]])) \<and>
   fst (Matrix_determinant
          (fst (matrix_literal empty_heap
                 [[Num 1, Num 2, Num 3], [Num 4, Num 5, Num 6], [Num 7, Num 8, Num 9]]))
          (snd (matrix_literal empty_heap
                 [[Num 1, Num 2, Num 3], [Num 4, Num 5, Num 6], [Num 7, Num 8, Num 9]])))
     = Inl (Error ''Cannot proceed without a row exchange'')"
proof -
  obtain h m where hm: "matrix_literal empty_heap [[Num 1, Num 2], [Num 2, Num 4]] = (h, m)"
    by (cases "matrix_literal empty_heap [[Num 1, Num 2], [Num 2, Num 4]]")
  obtain g p where gp: "matrix_literal empty_heap
                 [[Num 1, Num 2, Num 3], [Num 4, Num 5, Num 6], [Num 7, Num 8, Num 9]] = (g, p)"
    by (cases "matrix_literal empty_heap
                 [[Num 1, Num 2, Num 3], [Num 4, Num 5, Num 6], [Num 7, Num 8, Num 9]]")
  have c2: "contents h m = [[Num 1, Num 2], [Num 2, Num 4]]"
    using matrix_literal_allocated [OF hm] by simp
  have al: "allocated g p"
    and c3: "contents g p = map (map Num) [[1, 2, 3], [4, 5, 6], [7, 8, 9]]"
    using matrix_literal_allocated [OF gp] by simp_all
  have small: "\<exists>k<3. \<bar>working (\<lambda>i j. [[1, 2, 3], [4, 5, 6], [7, 8, 9 :: real]] ! i ! j) k k k\<bar> < tol"
    by (rule exI [of _ 2]) (simp add: tol_def numeral_2_eq_2)
  have two: "Matrix_determinant h m = (Inr (Num 0), h)"
    using determinant_two_by_two_and_larger [of h m "Num 1" "Num 2" "Num 2" "Num 4"] c2
    by simp
  have three: "fst (Matrix_determinant g p) = Inl (Error ''Cannot proceed without a row exchange'')"
    using determinant_two_by_two_and_larger
      [where h = g and that = p and Am = "[[1, 2, 3], [4, 5, 6], [7, 8, 9]]" and n = 3]
      al c3 small
    by simp
  show ?thesis
    unfolding hm gp fst_conv snd_conv using two three by simp
qed

section \<open>Solving by substitution\<close>







lemma built_heap_ext: "built h rs h' M \<Longrightarrow> heap_ext h h'"
  by (simp add: built_def)




section \<open>What \<open>rref\<close> writes\<close>

lemma touches_trans: "touches R Q h1 h2 \<Longrightarrow> touches R Q h2 h3 \<Longrightarrow> touches R Q h1 h3"
  by (simp add: touches_def)

lemma keeps_refl: "fresh R Q h res \<Longrightarrow> keeps R Q res h h"
  by (simp add: keeps_def touches_def)

lemma keeps_trans: "keeps R Q res h1 h2 \<Longrightarrow> keeps R Q res h2 h3 \<Longrightarrow> keeps R Q res h1 h3"
  using touches_trans by (auto simp: keeps_def)

lemma keeps_fresh: "keeps R Q res h h' \<Longrightarrow> fresh R Q h' res"
  by (simp add: keeps_def)

lemma cell_set_keeps:
  assumes "cell_set h res i j v = Inr h'" and "fresh R Q h res"
  shows "keeps R Q res h h'"
proof -
  have ro: "rows_only R h h'"
    by (rule cell_set_rows_only [OF assms(1)]) (use assms(2) in \<open>simp add: fresh_def\<close>)
  then have "touches R Q h h'" by (simp add: rows_only_def touches_def)
  moreover have "fresh R Q h' res"
    using assms(2) ro rows_only_refs [OF ro, of res] by (simp add: fresh_def rows_only_def)
  ultimately show ?thesis by (simp add: keeps_def)
qed

lemma rows_swap_keeps:
  assumes "rows_swap h res i r = Inr h'" and "fresh R Q h res"
  shows "keeps R Q res h h'"
proof -
  let ?o = "mvalue (obj_at h res)"
  obtain ri rr where ri: "rowref h res i = Some ri" and rr: "rowref h res r = Some rr"
    and h': "h' = h\<lparr>outer_at := (outer_at h)(?o := (outer_at h ?o)[i := rr, r := ri])\<rparr>"
    using assms(1) by (auto simp: rows_swap_def split: option.splits)
  have mem: "ri \<in> set (refs h res)" "rr \<in> set (refs h res)"
    using ri rr by (auto simp: rowref_def refs_def Let_def split: if_splits)
  have "set ((outer_at h ?o)[i := rr, r := ri]) \<subseteq> insert ri (insert rr (set (outer_at h ?o)))"
    by (meson set_update_subset_insert subset_trans insert_mono)
  then have "set (refs h' res) \<subseteq> R"
    using mem assms(2) by (auto simp: h' refs_def fresh_def)
  moreover have "touches R Q h h'"
    using assms(2) by (auto simp: h' touches_def fresh_def)
  ultimately show ?thesis using assms(2) by (simp add: keeps_def fresh_def h')
qed

lemma rref_norm_keeps:
  "fresh R Q h res \<Longrightarrow> keeps R Q res h (snd (rref_norm h this res r val j))"
proof (induction h this res r val j rule: rref_norm.induct)
  case (1 h this res r val j)
  show ?case
  proof (cases "\<exists>cols x h'. getCols (contents h this) = Inr cols \<and> j < cols \<and>
                  cell_get h res r j = Inr x \<and> cell_set h res r j (js_div x val) = Inr h'")
    case True
    then obtain cols x h' where c: "getCols (contents h this) = Inr cols" "j < cols"
      "cell_get h res r j = Inr x" and s: "cell_set h res r j (js_div x val) = Inr h'"
      by blast
    have k1: "keeps R Q res h h'" by (rule cell_set_keeps [OF s "1.prems"])
    have "keeps R Q res h' (snd (rref_norm h' this res r val (Suc j)))"
      by (rule "1.IH" [OF c s keeps_fresh [OF k1]])
    then have "keeps R Q res h (snd (rref_norm h' this res r val (Suc j)))"
      using k1 keeps_trans by blast
    moreover have "rref_norm h this res r val j = rref_norm h' this res r val (Suc j)"
      using c s by (subst rref_norm.simps) simp
    ultimately show ?thesis by simp
  next
    case False
    then have "snd (rref_norm h this res r val j) = h"
      by (subst rref_norm.simps) (auto split: sum.splits)
    then show ?thesis using keeps_refl [OF "1.prems"] by simp
  qed
qed

lemma rref_elim_j_keeps:
  "fresh R Q h res \<Longrightarrow> keeps R Q res h (snd (rref_elim_j h this res r i val j))"
proof (induction h this res r i val j rule: rref_elim_j.induct)
  case (1 h this res r i val j)
  show ?case
  proof (cases "\<exists>cols x y h'. getCols (contents h this) = Inr cols \<and> j < cols \<and>
                  cell_get h res i j = Inr x \<and> cell_get h res r j = Inr y \<and>
                  cell_set h res i j (js_sub x (js_mul val y)) = Inr h'")
    case True
    then obtain cols x y h' where c: "getCols (contents h this) = Inr cols" "j < cols"
      and g: "cell_get h res i j = Inr x" "cell_get h res r j = Inr y"
      and s: "cell_set h res i j (js_sub x (js_mul val y)) = Inr h'"
      by blast
    have k1: "keeps R Q res h h'" by (rule cell_set_keeps [OF s "1.prems"])
    have "keeps R Q res h' (snd (rref_elim_j h' this res r i val (Suc j)))"
      by (rule "1.IH" [OF c _ _ _ s keeps_fresh [OF k1]]) (simp_all add: g)
    then have "keeps R Q res h (snd (rref_elim_j h' this res r i val (Suc j)))"
      using k1 keeps_trans by blast
    moreover have "rref_elim_j h this res r i val j = rref_elim_j h' this res r i val (Suc j)"
      using c g s by (subst rref_elim_j.simps) simp
    ultimately show ?thesis by simp
  next
    case False
    then have "snd (rref_elim_j h this res r i val j) = h"
      by (subst rref_elim_j.simps) (auto split: sum.splits)
    then show ?thesis using keeps_refl [OF "1.prems"] by simp
  qed
qed

lemma rref_elim_keeps:
  "fresh R Q h res \<Longrightarrow> keeps R Q res h (snd (rref_elim h this res r lead i))"
proof (induction h this res r lead i rule: rref_elim.induct)
  case (1 h this res r lead i)
  show ?case
  proof (cases "i < getRows (contents h this)")
    case False
    then have "snd (rref_elim h this res r lead i) = h"
      by (subst rref_elim.simps) simp
    then show ?thesis using keeps_refl [OF "1.prems"] by simp
  next
    case i: True
    show ?thesis
    proof (cases "i = r")
      case True
      then have "rref_elim h this res r lead i = rref_elim h this res r lead (Suc i)"
        using i by (subst rref_elim.simps) simp
      then show ?thesis using "1.IH"(1) [OF i True "1.prems"] by simp
    next
      case ir: False
      show ?thesis
      proof (cases "cell_get h res i lead")
        case (Inl e)
        then have "snd (rref_elim h this res r lead i) = h"
          using i ir by (subst rref_elim.simps) simp
        then show ?thesis using keeps_refl [OF "1.prems"] by simp
      next
        case (Inr val)
        obtain e h' where j: "rref_elim_j h this res r i val 0 = (e, h')"
          by (cases "rref_elim_j h this res r i val 0")
        have k1: "keeps R Q res h h'"
          using rref_elim_j_keeps [OF "1.prems", of this r i val 0] j by simp
        show ?thesis
        proof (cases e)
          case (Some err)
          then have "snd (rref_elim h this res r lead i) = h'"
            using i ir Inr j by (subst rref_elim.simps) simp
          then show ?thesis using k1 by simp
        next
          case None
          have "keeps R Q res h' (snd (rref_elim h' this res r lead (Suc i)))"
            by (rule "1.IH"(2) [OF i ir Inr _ _ keeps_fresh [OF k1]]) (use j None in simp_all)
          moreover have "rref_elim h this res r lead i = rref_elim h' this res r lead (Suc i)"
            using i ir Inr j None by (subst rref_elim.simps) simp
          ultimately show ?thesis using k1 keeps_trans by fastforce
        qed
      qed
    qed
  qed
qed

lemma rref_r_keeps:
  "fresh R Q h res \<Longrightarrow> keeps R Q res h (snd (rref_r h this res lead r))"
proof (induction h this res lead r rule: rref_r.induct)
  case (1 h this res lead r)
  note fr = "1.prems"
  show ?case
  proof (cases "\<exists>cols i lead' h1 val h2 h3.
            r < getRows (contents h this) \<and> getCols (contents h this) = Inr cols \<and> \<not> cols \<le> lead \<and>
            rref_while h this res r lead r = Inr (Some (i, lead')) \<and>
            rows_swap h res i r = Inr h1 \<and> cell_get h1 res r lead' = Inr val \<and>
            rref_norm h1 this res r val 0 = (None, h2) \<and>
            rref_elim h2 this res r lead' 0 = (None, h3)")
    case True
    then obtain cols i lead' h1 val h2 h3 where
      r: "r < getRows (contents h this)" and c: "getCols (contents h this) = Inr cols"
      and l: "\<not> cols \<le> lead" and w: "rref_while h this res r lead r = Inr (Some (i, lead'))"
      and s: "rows_swap h res i r = Inr h1" and g: "cell_get h1 res r lead' = Inr val"
      and n: "rref_norm h1 this res r val 0 = (None, h2)"
      and e: "rref_elim h2 this res r lead' 0 = (None, h3)"
      by blast
    have k1: "keeps R Q res h h1" by (rule rows_swap_keeps [OF s fr])
    have k2: "keeps R Q res h1 h2"
      using rref_norm_keeps [OF keeps_fresh [OF k1], of this r val 0] n by simp
    have k3: "keeps R Q res h2 h3"
      using rref_elim_keeps [OF keeps_fresh [OF k2], of this r lead' 0] e by simp
    have k13: "keeps R Q res h h3"
      using k1 k2 k3 keeps_trans by blast
    have "keeps R Q res h3 (snd (rref_r h3 this res (Suc lead') (Suc r)))"
      by (rule "1.IH" [OF r c l w refl refl s g n [symmetric] refl e [symmetric] refl
            keeps_fresh [OF k13]])
    moreover have "rref_r h this res lead r = rref_r h3 this res (Suc lead') (Suc r)"
      using r c l w s g n e by (subst rref_r.simps) simp
    ultimately show ?thesis using k13 keeps_trans by fastforce
  next
    case False
    have "keeps R Q res h (snd (rref_r h this res lead r))"
    proof (cases "r < getRows (contents h this)")
      case False
      then have "snd (rref_r h this res lead r) = h" by (subst rref_r.simps) simp
      then show ?thesis using keeps_refl [OF fr] by simp
    next
      case r: True
      show ?thesis
      proof (cases "getCols (contents h this)")
        case (Inl err)
        then have "snd (rref_r h this res lead r) = h" using r by (subst rref_r.simps) simp
        then show ?thesis using keeps_refl [OF fr] by simp
      next
        case (Inr cols)
        show ?thesis
        proof (cases "cols \<le> lead")
          case True
          then have "snd (rref_r h this res lead r) = h" using r Inr by (subst rref_r.simps) simp
          then show ?thesis using keeps_refl [OF fr] by simp
        next
          case l: False
          show ?thesis
          proof (cases "\<exists>i lead'. rref_while h this res r lead r = Inr (Some (i, lead'))")
            case False
            then have "snd (rref_r h this res lead r) = h"
              using r Inr l by (subst rref_r.simps) (auto split: sum.splits option.splits)
            then show ?thesis using keeps_refl [OF fr] by simp
          next
            case True
            then obtain i lead' where w: "rref_while h this res r lead r = Inr (Some (i, lead'))"
              by blast
            show ?thesis
            proof (cases "rows_swap h res i r")
              case (Inl err)
              then have "snd (rref_r h this res lead r) = h"
                using r Inr l w by (subst rref_r.simps) simp
              then show ?thesis using keeps_refl [OF fr] by simp
            next
              case s: (Inr h1)
              have k1: "keeps R Q res h h1" by (rule rows_swap_keeps [OF s fr])
              show ?thesis
              proof (cases "cell_get h1 res r lead'")
                case (Inl err)
                then have "snd (rref_r h this res lead r) = h1"
                  using r Inr l w s by (subst rref_r.simps) simp
                then show ?thesis using k1 by simp
              next
                case g: (Inr val)
                obtain e2 h2 where n: "rref_norm h1 this res r val 0 = (e2, h2)"
                  by (cases "rref_norm h1 this res r val 0")
                have k2: "keeps R Q res h1 h2"
                  using rref_norm_keeps [OF keeps_fresh [OF k1], of this r val 0] n by simp
                have k12: "keeps R Q res h h2" using k1 k2 keeps_trans by blast
                show ?thesis
                proof (cases e2)
                  case (Some err)
                  then have "snd (rref_r h this res lead r) = h2"
                    using r Inr l w s g n by (subst rref_r.simps) simp
                  then show ?thesis using k12 by simp
                next
                  case n2: None
                  obtain e3 h3 where e: "rref_elim h2 this res r lead' 0 = (e3, h3)"
                    by (cases "rref_elim h2 this res r lead' 0")
                  have k3: "keeps R Q res h2 h3"
                    using rref_elim_keeps [OF keeps_fresh [OF k2], of this r lead' 0] e by simp
                  have k13: "keeps R Q res h h3" using k12 k3 keeps_trans by blast
                  obtain err where "e3 = Some err"
                    using False r Inr l w s g n n2 e by (cases e3) auto
                  then have "snd (rref_r h this res lead r) = h3"
                    using r Inr l w s g n n2 e by (subst rref_r.simps) simp
                  then show ?thesis using k13 by simp
                qed
              qed
            qed
          qed
        qed
      qed
    qed
    then show ?thesis .
  qed
qed

lemma heap_ext_touches:
  assumes "heap_ext h h1" and "touches R Q h1 h2"
    and "\<forall>a\<in>R. next_row h \<le> a" and "\<forall>a\<in>Q. next_outer h \<le> a"
  shows "heap_ext h h2"
proof -
  have same: "obj_at h2 = obj_at h1" "next_row h2 = next_row h1"
    "next_outer h2 = next_outer h1" "next_obj h2 = next_obj h1"
    using assms(2) by (simp_all add: touches_def)
  have rows: "row_at h2 a = row_at h1 a" if "a < next_row h" for a
  proof -
    have "a \<notin> R" using assms(3) that by auto
    then show ?thesis using assms(2) by (simp add: touches_def)
  qed
  have outers: "outer_at h2 a = outer_at h1 a" if "a < next_outer h" for a
  proof -
    have "a \<notin> Q" using assms(4) that by auto
    then show ?thesis using assms(2) by (simp add: touches_def)
  qed
  show ?thesis
    using assms(1) unfolding heap_ext_def same by (simp add: rows outers)
qed

lemma built_fresh:
  "built h rs h' M \<Longrightarrow> fresh {a. next_row h \<le> a} {a. next_outer h \<le> a} h' M"
  by (auto simp: built_def fresh_def)

lemma Matrix_rref_frame:
  "heap_ext h (snd (Matrix_rref h this))"
proof -
  obtain h1 res where c: "Matrix_clone h this = (h1, res)" by (cases "Matrix_clone h this")
  have b: "built h (contents h this) h1 res" by (rule Matrix_clone_built [OF c])
  have "keeps {a. next_row h \<le> a} {a. next_outer h \<le> a} res h1 (snd (rref_r h1 this res 0 0))"
    by (rule rref_r_keeps [OF built_fresh [OF b]])
  then have "touches {a. next_row h \<le> a} {a. next_outer h \<le> a} h1 (snd (rref_r h1 this res 0 0))"
    by (simp add: keeps_def)
  then have "heap_ext h (snd (rref_r h1 this res 0 0))"
    by (rule heap_ext_touches [OF built_heap_ext [OF b]]) simp_all
  then show ?thesis using c by (simp add: Matrix_rref_def)
qed

lemma Matrix_inverse_frame:
  "heap_ext h (snd (Matrix_inverse h this))"
proof -
  obtain h1 A where c: "Matrix_clone h this = (h1, A)" by (cases "Matrix_clone h this")
  obtain h2 I where i: "Matrix_identity h1 A = (h2, I)" by (cases "Matrix_identity h1 A")
  obtain h3 AI where a: "Matrix_concat h2 A I = (h3, AI)" by (cases "Matrix_concat h2 A I")
  have e1: "heap_ext h h1" using built_heap_ext [OF Matrix_clone_built [OF c]] .
  have e2: "heap_ext h1 h2"
    using i built_heap_ext [OF Matrix_map_built] by (simp add: Matrix_identity_def)
  have e3: "heap_ext h2 h3"
    using a built_heap_ext [OF Matrix_map_built] by (simp add: Matrix_concat_def)
  have e4: "heap_ext h3 (snd (Matrix_rref h3 AI))" by (rule Matrix_rref_frame)
  have e04: "heap_ext h (snd (Matrix_rref h3 AI))"
    using e1 e2 e3 e4 heap_ext_trans by blast
  show ?thesis
  proof (cases "Matrix_rref h3 AI")
    case (Pair res h4)
    show ?thesis
    proof (cases res)
      case (Inl err)
      have "Matrix_inverse h this = (Inl err, h4)"
        by (simp add: Matrix_inverse_def c i a Pair Inl)
      then show ?thesis using e04 Pair by simp
    next
      case (Inr Inv)
      let ?rs = "map (\<lambda>x. drop (length x div 2) x) (contents h4 Inv)"
      obtain h5 result where n: "new_array h4 ?rs = (h5, result)"
        by (cases "new_array h4 ?rs")
      obtain h6 m where m: "Matrix_of h5 None (Array result) = (h6, m)"
        by (cases "Matrix_of h5 None (Array result)")
      have "(let (h5, result) = new_array h4 ?rs in Matrix_of h5 None (Array result)) = (h6, m)"
        using n m by simp
      then have e5: "heap_ext h4 h6" using built_heap_ext [OF new_array_built] by blast
      have "Matrix_inverse h this = (Inr m, h6)"
        by (simp add: Matrix_inverse_def c i a Pair Inr n m)
      then have "snd (Matrix_inverse h this) = h6" by simp
      moreover have "heap_ext h h4" using e04 Pair by simp
      ultimately show ?thesis using e5 heap_ext_trans by blast
    qed
  qed
qed

section \<open>The caller's matrix\<close>

lemma lu_throws_example:
  "fst (Matrix_lu (fst (matrix_literal empty_heap [[Num 0, Num 1], [Num 1, Num 0]]))
                  (snd (matrix_literal empty_heap [[Num 0, Num 1], [Num 1, Num 0]])))
   = Inl (Error ''Cannot proceed without a row exchange'')"
  by code_simp

text \<open>
  C7. For every matrix of the store, after \<open>lu()\<close>, \<open>rref()\<close> and \<open>inverse()\<close>,
  whatever they return or throw, every row, every array of rows and every object that
  existed before the call is as it was (the store has only been extended); so the
  caller's matrix has the same rows, at the same addresses, with the same values. This
  covers the call of \<open>lu()\<close> that throws, whose outcome is not looked at.
\<close>

theorem clone_protects_caller:
  assumes "allocated h this"
  shows "heap_ext h (snd (Matrix_lu h this)) \<and>
         refs (snd (Matrix_lu h this)) this = refs h this \<and>
         contents (snd (Matrix_lu h this)) this = contents h this \<and>
         heap_ext h (snd (Matrix_rref h this)) \<and>
         refs (snd (Matrix_rref h this)) this = refs h this \<and>
         contents (snd (Matrix_rref h this)) this = contents h this \<and>
         heap_ext h (snd (Matrix_inverse h this)) \<and>
         refs (snd (Matrix_inverse h this)) this = refs h this \<and>
         contents (snd (Matrix_inverse h this)) this = contents h this"
proof -
  have lu: "heap_ext h (snd (Matrix_lu h this))"
    by (rule Matrix_lu_frame(1) [OF assms refl])
  have rref: "heap_ext h (snd (Matrix_rref h this))"
    by (rule Matrix_rref_frame)
  have inv: "heap_ext h (snd (Matrix_inverse h this))"
    by (rule Matrix_inverse_frame)
  show ?thesis
    by (intro conjI lu rref inv
        heap_ext_allocated(2) [OF lu assms] heap_ext_allocated(3) [OF lu assms]
        heap_ext_allocated(2) [OF rref assms] heap_ext_allocated(3) [OF rref assms]
        heap_ext_allocated(2) [OF inv assms] heap_ext_allocated(3) [OF inv assms])
qed

theorem clone_protects_caller_witness:
  "allocated (fst (matrix_literal empty_heap [[Num 0, Num 1], [Num 1, Num 0]]))
             (snd (matrix_literal empty_heap [[Num 0, Num 1], [Num 1, Num 0]])) \<and>
   fst (Matrix_lu (fst (matrix_literal empty_heap [[Num 0, Num 1], [Num 1, Num 0]]))
                  (snd (matrix_literal empty_heap [[Num 0, Num 1], [Num 1, Num 0]])))
     = Inl (Error ''Cannot proceed without a row exchange'') \<and>
   heap_ext (fst (matrix_literal empty_heap [[Num 0, Num 1], [Num 1, Num 0]]))
     (snd (Matrix_lu (fst (matrix_literal empty_heap [[Num 0, Num 1], [Num 1, Num 0]]))
                     (snd (matrix_literal empty_heap [[Num 0, Num 1], [Num 1, Num 0]])))) \<and>
   contents (snd (Matrix_lu (fst (matrix_literal empty_heap [[Num 0, Num 1], [Num 1, Num 0]]))
                            (snd (matrix_literal empty_heap [[Num 0, Num 1], [Num 1, Num 0]]))))
            (snd (matrix_literal empty_heap [[Num 0, Num 1], [Num 1, Num 0]]))
     = [[Num 0, Num 1], [Num 1, Num 0]] \<and>
   contents (snd (Matrix_rref (fst (matrix_literal empty_heap [[Num 0, Num 1], [Num 1, Num 0]]))
                              (snd (matrix_literal empty_heap [[Num 0, Num 1], [Num 1, Num 0]]))))
            (snd (matrix_literal empty_heap [[Num 0, Num 1], [Num 1, Num 0]]))
     = [[Num 0, Num 1], [Num 1, Num 0]] \<and>
   contents (snd (Matrix_inverse (fst (matrix_literal empty_heap [[Num 0, Num 1], [Num 1, Num 0]]))
                                 (snd (matrix_literal empty_heap [[Num 0, Num 1], [Num 1, Num 0]]))))
            (snd (matrix_literal empty_heap [[Num 0, Num 1], [Num 1, Num 0]]))
     = [[Num 0, Num 1], [Num 1, Num 0]]"
proof -
  obtain h m where hm: "matrix_literal empty_heap [[Num 0, Num 1], [Num 1, Num 0]] = (h, m)"
    by (cases "matrix_literal empty_heap [[Num 0, Num 1], [Num 1, Num 0]]")
  have al: "allocated h m" and c: "contents h m = [[Num 0, Num 1], [Num 1, Num 0]]"
    using matrix_literal_allocated [OF hm] by simp_all
  have thrown: "fst (Matrix_lu h m) = Inl (Error ''Cannot proceed without a row exchange'')"
    using lu_throws_example unfolding hm fst_conv snd_conv .
  show ?thesis
    unfolding hm fst_conv snd_conv
    using clone_protects_caller [OF al] al c thrown by simp
qed

section \<open>Rank\<close>

text \<open>
  The loop of \<open>rank\<close> on the result of \<open>rref\<close>: with at least as many rows as columns
  it adds up the diagonal; with fewer rows than columns it reads a row that does not
  exist.
\<close>

lemma rank_loop_tall:
  assumes "getCols (contents h r) = Inr c" and "c \<le> getRows (contents h r)" and "i \<le> c"
  shows "rank_loop h r i acc =
         Inr (foldl js_add acc (map (\<lambda>k. get_at (contents h r ! k) k) [i..<c]))"
  using assms(3)
proof (induction "c - i" arbitrary: i acc)
  case 0
  then have "i = c" by simp
  then show ?case using assms(1) by (subst rank_loop.simps) simp
next
  case (Suc d)
  then have i: "i < c" and d: "d = c - Suc i" by simp_all
  have "rank_loop h r i acc = rank_loop h r (Suc i) (js_add acc (get_at (contents h r ! i) i))"
    using assms(1,2) i by (subst rank_loop.simps) (simp add: cell_get_contents getRows_def)
  also have "\<dots> = Inr (foldl js_add (js_add acc (get_at (contents h r ! i) i))
                       (map (\<lambda>k. get_at (contents h r ! k) k) [Suc i..<c]))"
    using Suc.hyps(1) [OF d] i by simp
  finally show ?case using i by (simp add: upt_conv_Cons)
qed

lemma rank_loop_wide:
  assumes "getCols (contents h r) = Inr c" and "getRows (contents h r) < c"
    and "i \<le> getRows (contents h r)"
  shows "rank_loop h r i acc = Inl TypeError"
  using assms(3)
proof (induction "getRows (contents h r) - i" arbitrary: i acc)
  case 0
  then have "i = getRows (contents h r)" by simp
  then show ?case
    using assms(1,2) by (subst rank_loop.simps) (simp add: cell_get_contents getRows_def)
next
  case (Suc d)
  then have i: "i < getRows (contents h r)" and d: "d = getRows (contents h r) - Suc i"
    by simp_all
  have "rank_loop h r i acc = rank_loop h r (Suc i) (js_add acc (get_at (contents h r ! i) i))"
    using assms(1,2) i by (subst rank_loop.simps) (simp add: cell_get_contents getRows_def)
  also have "\<dots> = Inl TypeError"
    using Suc.hyps(1) [OF d] i by simp
  finally show ?case .
qed

lemma rank_of_rref:
  assumes "Matrix_rref h this = (Inr r, h1)" and "getCols (contents h1 r) = Inr c"
  shows "fst (Matrix_rank h this) =
         (if c \<le> getRows (contents h1 r)
          then Inr (foldl js_add (Num 0) (map (\<lambda>k. get_at (contents h1 r ! k) k) [0..<c]))
          else Inl TypeError)"
  using assms rank_loop_tall [OF assms(2), of 0 "Num 0"] rank_loop_wide [OF assms(2), of 0 "Num 0"]
  by (simp add: Matrix_rank_def)

text \<open>
  C5. \<open>Matrix.of([[1, 2, 3], [4, 5, 6]]).rank()\<close>: the row-reduced echelon form is
  \<open>[[1, 0, -1], [0, 1, 2]]\<close>, with three columns; the loop of \<open>rank\<close> runs to
  \<open>rref.getCols()\<close>, and reading \<open>rref.__value[2][2]\<close> throws a TypeError, where the
  sum of the diagonal entries is 2.
\<close>

theorem rank_wide_matrix:
  "fst (Matrix_rref (fst (matrix_literal empty_heap [[Num 1, Num 2, Num 3], [Num 4, Num 5, Num 6]]))
                    (snd (matrix_literal empty_heap [[Num 1, Num 2, Num 3], [Num 4, Num 5, Num 6]])))
     = Inr 1 \<and>
   contents (snd (Matrix_rref (fst (matrix_literal empty_heap [[Num 1, Num 2, Num 3], [Num 4, Num 5, Num 6]]))
                    (snd (matrix_literal empty_heap [[Num 1, Num 2, Num 3], [Num 4, Num 5, Num 6]])))) 1
     = [[Num 1, Num 0, Num (- 1)], [Num 0, Num 1, Num 2]] \<and>
   getCols [[Num 1, Num 0, Num (- 1)], [Num 0, Num 1, Num 2]] = Inr 3 \<and>
   fst (Matrix_rank (fst (matrix_literal empty_heap [[Num 1, Num 2, Num 3], [Num 4, Num 5, Num 6]]))
                    (snd (matrix_literal empty_heap [[Num 1, Num 2, Num 3], [Num 4, Num 5, Num 6]])))
     = Inl TypeError"
  by code_simp

end
